theory Spec2Isabelle
  imports Main "HOL-Library.Word" "HOL-Library.Log_Nat"
begin

unbundle bit_operations_syntax

section \<open>The generator: \<open>std::mt19937\<close>\<close>

text \<open>
  \<open>fillRnd\<close> creates one \<open>std::mt19937 generator(seed)\<close> per call.  The engine is
  \<open>mersenne_twister_engine<uint_fast32_t, 32, 624, 397, 31, 0x9908b0df, 11, 0xffffffff, 7,
  0x9d2c5680, 15, 0xefc60000, 18, 1812433253>\<close>; its algorithm is fixed by the C++ standard
  ([rand.eng.mers]), so it is modelled in full.  The state is the array of 624 words of 32 bits
  and the position \<open>p\<close> of the next word to hand out.
\<close>

record mt19937 =
  mt_x :: "32 word list"
  mt_p :: nat

text \<open>
  \<open>seed(value)\<close>: \<open>x[0] = value mod 2^32\<close> and
  \<open>x[i] = (1812433253 * (x[i-1] xor (x[i-1] >> 30)) + i) mod 2^32\<close> for \<open>i = 1 .. 623\<close>
  (the index \<open>i\<close> is carried as a 32-bit word, which is \<open>i mod 2^32\<close>);
  the position is set to 624, so that the first draw regenerates the block.
\<close>

fun mt_seed_words :: "nat \<Rightarrow> 32 word \<Rightarrow> 32 word \<Rightarrow> 32 word list" where
  "mt_seed_words 0 i prev = []"
| "mt_seed_words (Suc n) i prev =
     (let x = 1812433253 * (prev XOR drop_bit 30 prev) + i
      in x # mt_seed_words n (i + 1) x)"

text \<open>
  The source passes \<open>int seed\<close>; converting it to the engine's unsigned result type and
  reducing it modulo \<open>2^32\<close> is \<open>word_of_int\<close>.
\<close>

definition mt19937_seed :: "int \<Rightarrow> mt19937" where
  "mt19937_seed seed =
     (let x0 = (word_of_int seed :: 32 word)
      in \<lparr>mt_x = x0 # mt_seed_words 623 1 x0, mt_p = 624\<rparr>)"

text \<open>
  Regenerating the block, in place and in index order:
  \<open>y = (x[k] & 0x80000000) | (x[(k+1) mod 624] & 0x7fffffff)\<close> and
  \<open>x[k] = x[(k+397) mod 624] ^ (y >> 1) ^ ((y & 1) ? 0x9908b0df : 0)\<close>.
\<close>

definition mt_twist_value :: "32 word \<Rightarrow> 32 word \<Rightarrow> 32 word \<Rightarrow> 32 word" where
  "mt_twist_value xk xk1 xkm =
     (let y = (xk AND 0x80000000) OR (xk1 AND 0x7fffffff)
      in xkm XOR drop_bit 1 y XOR (if y AND 1 = 0 then 0 else 0x9908b0df))"

definition mt_twist_step :: "nat \<Rightarrow> 32 word list \<Rightarrow> 32 word list" where
  "mt_twist_step k x =
     x[k := mt_twist_value (x ! k) (x ! ((k + 1) mod 624)) (x ! ((k + 397) mod 624))]"

definition mt_gen_rand :: "32 word list \<Rightarrow> 32 word list" where
  "mt_gen_rand x = fold mt_twist_step [0..<624] x"

text \<open>Tempering of the word handed out.\<close>

definition mt_temper :: "32 word \<Rightarrow> 32 word" where
  "mt_temper z0 =
     (let z1 = z0 XOR (drop_bit 11 z0 AND 0xffffffff);
          z2 = z1 XOR (push_bit 7 z1 AND 0x9d2c5680);
          z3 = z2 XOR (push_bit 15 z2 AND 0xefc60000)
      in z3 XOR drop_bit 18 z3)"

text \<open>\<open>operator()\<close>: the next 32-bit word and the generator after the draw.\<close>

definition mt_next :: "mt19937 \<Rightarrow> 32 word \<times> mt19937" where
  "mt_next g =
     (let g1 = (if mt_p g \<ge> 624 then \<lparr>mt_x = mt_gen_rand (mt_x g), mt_p = 0\<rparr> else g)
      in (mt_temper (mt_x g1 ! mt_p g1), g1\<lparr>mt_p := Suc (mt_p g1)\<rparr>))"

section \<open>Element types and the choice of the distribution\<close>

text \<open>
  The element type \<open>T::value_type\<close> of an instantiation.  The arithmetic types are the
  integral and the floating-point types (\<open>std::is_arithmetic\<close>); every other type, such as
  \<open>std::string\<close>, is a \<open>T_class\<close>.
\<close>

datatype ctype =
    T_bool | T_char | T_signed_char | T_unsigned_char | T_wchar_t | T_char16_t | T_char32_t
  | T_short | T_unsigned_short | T_int | T_unsigned_int | T_long | T_unsigned_long
  | T_long_long | T_unsigned_long_long
  | T_float | T_double | T_long_double
  | T_class string

fun is_floating_point :: "ctype \<Rightarrow> bool" where
  "is_floating_point T_float = True"
| "is_floating_point T_double = True"
| "is_floating_point T_long_double = True"
| "is_floating_point _ = False"

fun is_integral :: "ctype \<Rightarrow> bool" where
  "is_integral T_float = False"
| "is_integral T_double = False"
| "is_integral T_long_double = False"
| "is_integral (T_class _) = False"
| "is_integral _ = True"

definition is_arithmetic :: "ctype \<Rightarrow> bool" where
  "is_arithmetic t = (is_integral t \<or> is_floating_point t)"

text \<open>
  A distribution of the \<open><random>\<close> header, as \<open>fillRnd\<close> uses it: it is constructed
  from the two bounds (\<open>disType dis(min, max)\<close>) and called on the generator
  (\<open>dis(generator)\<close>), which gives a value and advances the generator.  How the two uniform
  distributions compute is the library's business, so the header is a parameter of the model.
  A draw may loop (rejection sampling): \<open>None\<close> is a draw that does not return.
\<close>

type_synonym 'v distribution = "'v \<Rightarrow> 'v \<Rightarrow> mt19937 \<Rightarrow> ('v \<times> mt19937) option"

record 'v random_header =
  uniform_int_distribution :: "'v distribution"
  uniform_real_distribution :: "'v distribution"

text \<open>
  \<open>using disType = std::conditional<std::is_integral<value_type>::value,
  std::uniform_int_distribution<value_type>, std::uniform_real_distribution<value_type>>::type\<close>
\<close>

definition disType :: "'v random_header \<Rightarrow> ctype \<Rightarrow> 'v distribution" where
  "disType lib value_type =
     (if is_integral value_type then uniform_int_distribution lib
      else uniform_real_distribution lib)"

section \<open>\<open>fillRnd\<close>\<close>

text \<open>
  \<open>std::generate(first, last, gen)\<close> assigns \<open>gen()\<close> to every element of the range, from
  the first to the last.  The range is the list of the elements still to be assigned; the state
  that \<open>gen\<close> captures by reference is threaded through.
\<close>

fun generate :: "'v list \<Rightarrow> ('g \<Rightarrow> ('v \<times> 'g) option) \<Rightarrow> 'g \<Rightarrow> ('v list \<times> 'g) option" where
  "generate [] gen g = Some ([], g)"
| "generate (x # xs) gen g =
     (case gen g of
        None \<Rightarrow> None
      | Some (v, g1) \<Rightarrow>
          (case generate xs gen g1 of
             None \<Rightarrow> None
           | Some (ys, g2) \<Rightarrow> Some (v # ys, g2)))"

text \<open>
  \<open>fillRnd(arr, min, max, seed)\<close>: the container is the list of its elements, and the result
  is the container after the call (\<open>None\<close> when a draw does not return).  The generator is
  local to the call.
\<close>

definition fillRnd ::
  "'v random_header \<Rightarrow> ctype \<Rightarrow> 'v list \<Rightarrow> 'v \<Rightarrow> 'v \<Rightarrow> int \<Rightarrow> 'v list option" where
  "fillRnd lib value_type arr mn mx seed =
     (let generator = mt19937_seed seed;
          dis = disType lib value_type mn mx
      in map_option fst (generate arr (\<lambda>g. dis g) generator))"

text \<open>The call \<open>fillRnd(arr, min, max)\<close>: the default argument \<open>int seed=1337\<close> is taken.\<close>

definition fillRnd_default_seed ::
  "'v random_header \<Rightarrow> ctype \<Rightarrow> 'v list \<Rightarrow> 'v \<Rightarrow> 'v \<Rightarrow> 'v list option" where
  "fillRnd_default_seed lib value_type arr mn mx = fillRnd lib value_type arr mn mx 1337"

text \<open>The generator after \<open>n\<close> draws of \<open>gen\<close>.\<close>

fun after_draws :: "nat \<Rightarrow> ('g \<Rightarrow> ('v \<times> 'g) option) \<Rightarrow> 'g \<Rightarrow> 'g option" where
  "after_draws 0 gen g = Some g"
| "after_draws (Suc n) gen g =
     (case gen g of None \<Rightarrow> None | Some (v, g1) \<Rightarrow> after_draws n gen g1)"

section \<open>The integer distribution of GNU libstdc++ for \<open>int\<close>\<close>

text \<open>
  The algorithm of \<open>std::uniform_int_distribution\<close> is implementation-defined.  For the
  concrete runs of the demonstration (\<open>std::vector<int>\<close>, \<open>std::array<int, 10>\<close>) the
  distribution is modelled as GNU libstdc++ (\<open>bits/uniform_int_dist.h\<close>, GCC 11 and later)
  implements it for a generator whose range is exactly 32 bits, as \<open>std::mt19937\<close>'s is,
  on a platform where \<open>uint_fast32_t\<close>, the result type of the generator, has 64 bits
  (x86-64 Linux): the common unsigned type \<open>__uctype\<close> of the computation is then 64 bits wide.

  \<open>_S_nd\<close> is Lemire's nearly divisionless method: the 64-bit product of a draw and the
  size of the range, redrawn while its low half is below the threshold
  \<open>-range % range\<close>; the result is the high half of the product.  The loop has no bound.
\<close>

partial_function (option) S_nd_loop ::
  "mt19937 \<Rightarrow> 32 word \<Rightarrow> 32 word \<Rightarrow> 64 word \<Rightarrow> (64 word \<times> mt19937) option" where
  "S_nd_loop g erange threshold product =
     (if (ucast product :: 32 word) < threshold then
        (let (r, g1) = mt_next g
         in S_nd_loop g1 erange threshold (ucast r * ucast erange))
      else Some (product, g))"

declare S_nd_loop.simps [code]

definition S_nd :: "mt19937 \<Rightarrow> 32 word \<Rightarrow> (32 word \<times> mt19937) option" where
  "S_nd g erange =
     (let (r, g1) = mt_next g;
          product = (ucast r * ucast erange :: 64 word);
          low = (ucast product :: 32 word);
          final = (if low < erange then S_nd_loop g1 erange ((- erange) mod erange) product
                   else Some (product, g1))
      in map_option (\<lambda>(p, g2). (ucast (drop_bit 32 p), g2)) final)"

text \<open>
  The value that \<open>return __ret + __param.a()\<close> gives: the sum in the 64-bit unsigned
  type, converted to \<open>int\<close>.
\<close>

definition add_a :: "64 word \<Rightarrow> int \<Rightarrow> int" where
  "add_a ret a = sint (ucast (ret + word_of_int a) :: 32 word)"

text \<open>
  \<open>operator()\<close> of \<open>uniform_int_distribution<int>\<close> constructed with \<open>(a, b)\<close>.  The
  values of \<open>int\<close> are the integers from \<open>-2^31\<close> to \<open>2^31 - 1\<close>, and the behaviour is
  undefined unless \<open>a \<le> b\<close> (libstdc++ asserts it): outside of that the model gives no
  result.  The range \<open>b - a\<close> is computed in the 64-bit unsigned type.  With \<open>a \<le> b\<close> it
  is at most \<open>2^32 - 1\<close>, so the upscaling branch (range wider than the generator's) is never
  taken for \<open>int\<close> (\<open>upscaling_unreachable\<close> below) and its body is not modelled.
\<close>

definition uniform_int_distribution_int :: "int distribution" where
  "uniform_int_distribution_int a b urng =
     (if \<not> (- (2 ^ 31) \<le> a \<and> a \<le> b \<and> b < 2 ^ 31) then None
      else
        (let urngrange = (0xffffffff :: 64 word);
             urange = (word_of_int b - word_of_int a :: 64 word)
         in if urngrange > urange then
              map_option (\<lambda>(ret, g). (add_a (ucast ret) a, g)) (S_nd urng (ucast (urange + 1)))
            else if urngrange < urange then None
            else (let (r, g) = mt_next urng in Some (add_a (ucast r) a, g))))"

text \<open>
  The header as the instantiations for \<open>int\<close> see it.  \<open>std::conditional\<close> only names
  \<open>std::uniform_real_distribution<int>\<close>; it is never instantiated, and it has no draws.
\<close>

definition libstdcxx_int :: "int random_header" where
  "libstdcxx_int =
     \<lparr>uniform_int_distribution = uniform_int_distribution_int,
      uniform_real_distribution = (\<lambda>a b g. None)\<rparr>"

text \<open>
  A distribution that keeps its draws within its bounds: constructed with \<open>a \<le> b\<close>,
  every value drawn lies between \<open>a\<close> and \<open>b\<close>.
\<close>

definition within_bounds :: "('v::ord) distribution \<Rightarrow> bool" where
  "within_bounds d =
     (\<forall>a b g v g'. a \<le> b \<longrightarrow> d a b g = Some (v, g') \<longrightarrow> a \<le> v \<and> v \<le> b)"

text \<open>What \<open>out << x\<close> writes for a \<open>bool\<close> (without \<open>std::boolalpha\<close>).\<close>

definition put_bool :: "bool \<Rightarrow> string" where
  "put_bool b = (if b then ''1'' else ''0'')"

section \<open>The integer distribution of GNU libstdc++ for every integral type\<close>

text \<open>
  The integral types on x86-64 Linux (LP64): the width of each type in bits, and whether it
  is signed (\<open>char\<close> and \<open>wchar_t\<close> are signed there).  \<open>bool\<close> has no entry:
  \<open>std::uniform_int_distribution<bool>\<close> does not compile (\<open>std::make_unsigned<bool>\<close>).
\<close>

fun int_width :: "ctype \<Rightarrow> nat" where
  "int_width T_char = 8"
| "int_width T_signed_char = 8"
| "int_width T_unsigned_char = 8"
| "int_width T_char16_t = 16"
| "int_width T_short = 16"
| "int_width T_unsigned_short = 16"
| "int_width T_wchar_t = 32"
| "int_width T_char32_t = 32"
| "int_width T_int = 32"
| "int_width T_unsigned_int = 32"
| "int_width T_long = 64"
| "int_width T_unsigned_long = 64"
| "int_width T_long_long = 64"
| "int_width T_unsigned_long_long = 64"
| "int_width _ = 0"

fun is_signed :: "ctype \<Rightarrow> bool" where
  "is_signed T_char = True"
| "is_signed T_signed_char = True"
| "is_signed T_wchar_t = True"
| "is_signed T_short = True"
| "is_signed T_int = True"
| "is_signed T_long = True"
| "is_signed T_long_long = True"
| "is_signed _ = False"

text \<open>\<open>std::numeric_limits<T>::min()\<close> and \<open>max()\<close>.\<close>

definition int_min :: "ctype \<Rightarrow> int" where
  "int_min T = (if is_signed T then - (2 ^ (int_width T - 1)) else 0)"

definition int_max :: "ctype \<Rightarrow> int" where
  "int_max T = (if is_signed T then 2 ^ (int_width T - 1) - 1 else 2 ^ int_width T - 1)"

text \<open>The conversion of a value of the 64-bit unsigned type \<open>__uctype\<close> to the result type.\<close>

definition to_ctype :: "ctype \<Rightarrow> 64 word \<Rightarrow> int" where
  "to_ctype T w =
     (if is_signed T then signed_take_bit (int_width T - 1) (uint w)
      else take_bit (int_width T) (uint w))"

text \<open>
  The value \<open>__ret\<close> that \<open>operator()\<close> computes for the range \<open>__urange = b - a\<close>, with the
  three branches of the library: a range narrower than the generator's (\<open>_S_nd\<close>), a wider
  one (a draw for the high part, by a recursive call with the bounds \<open>0\<close> and
  \<open>__urange / 2^32\<close>, then a draw for the low 32 bits, repeated while the sum exceeds the range
  or wraps around), and a range equal to the generator's (the draw itself).  Both loops are
  unbounded.
\<close>

partial_function (option) uniform_int_ret ::
  "mt19937 \<Rightarrow> 64 word \<Rightarrow> (64 word \<times> mt19937) option" where
  "uniform_int_ret urng urange =
     (if urange < 0xffffffff then
        map_option (\<lambda>(ret, g). (ucast ret, g)) (S_nd urng (ucast (urange + 1)))
      else if 0xffffffff < urange then
        Option.bind (uniform_int_ret urng (urange div 0x100000000))
          (\<lambda>(hi, g1).
             let tmp = 0x100000000 * hi;
                 (r, g2) = mt_next g1;
                 ret = tmp + ucast r
             in if urange < ret \<or> ret < tmp then uniform_int_ret g2 urange else Some (ret, g2))
      else (let (r, g) = mt_next urng in Some (ucast r, g)))"

declare uniform_int_ret.simps [code]

text \<open>
  \<open>operator()\<close> of \<open>std::uniform_int_distribution<T>\<close> constructed with \<open>(a, b)\<close>, for an
  integral type \<open>T\<close> other than \<open>bool\<close>: \<open>return __ret + __param.a()\<close>.  The bounds are
  values of \<open>T\<close>, and the behaviour is undefined unless \<open>a \<le> b\<close>; outside of that the model
  gives no result.
\<close>

definition uniform_int_distribution_of :: "ctype \<Rightarrow> int distribution" where
  "uniform_int_distribution_of T a b urng =
     (if \<not> (is_integral T \<and> T \<noteq> T_bool \<and> int_min T \<le> a \<and> a \<le> b \<and> b \<le> int_max T) then None
      else map_option (\<lambda>(ret, g). (to_ctype T (ret + word_of_int a), g))
             (uniform_int_ret urng (word_of_int b - word_of_int a)))"

text \<open>
  The header as an instantiation for the integral element type \<open>T\<close> sees it.  For \<open>int\<close> it
  is \<open>libstdcxx_int\<close> (\<open>libstdcxx_integral_T_int\<close> below).
\<close>

definition libstdcxx_integral :: "ctype \<Rightarrow> int random_header" where
  "libstdcxx_integral T =
     \<lparr>uniform_int_distribution = uniform_int_distribution_of T,
      uniform_real_distribution = (\<lambda>a b g. None)\<rparr>"

section \<open>The real distribution of GNU libstdc++\<close>

text \<open>
  The floating-point types on x86-64 Linux: \<open>float\<close> is IEEE binary32, \<open>double\<close> is
  binary64 and \<open>long double\<close> the 80-bit extended format of the x87.  A format is its
  precision (the number of significand bits, the implicit one included) and its largest
  exponent.
\<close>

record fp_format =
  precision :: nat
  emax :: nat

definition binary32 :: fp_format where
  "binary32 = \<lparr>precision = 24, emax = 127\<rparr>"

definition binary64 :: fp_format where
  "binary64 = \<lparr>precision = 53, emax = 1023\<rparr>"

definition x87_extended :: fp_format where
  "x87_extended = \<lparr>precision = 64, emax = 16383\<rparr>"

definition format_of :: "ctype \<Rightarrow> fp_format" where
  "format_of T =
     (if T = T_double then binary64 else if T = T_long_double then x87_extended else binary32)"

text \<open>
  The values of a floating-point type: the finite ones, as the rational numbers they stand
  for, the two infinities and NaN.  (The sign of zero is not kept; no claim depends on it.)
\<close>

datatype fp = Finite rat | PInf | NInf | NaN

text \<open>
  Rounding to nearest, ties to even, the rounding of every arithmetic operation below.
  \<open>rne\<close> rounds a rational number to an integer.  \<open>rnd p X\<close> rounds a non-negative \<open>X\<close>
  to a multiple of \<open>2 ^ k\<close> with at most \<open>p\<close> significant bits, where \<open>k\<close> is the number of
  bits by which \<open>X\<close> is longer than \<open>p\<close> bits (none for a short \<open>X\<close>).  A value is counted
  in \<open>units\<close>, the smallest subnormal number of the format, so that a value of the format is
  an integer number of units; \<open>fmax\<close> is the largest finite value.  \<open>fl f x\<close> is the value of
  the format \<open>f\<close> that the exact result \<open>x\<close> of an operation is rounded to: an infinity when
  the rounded magnitude exceeds \<open>fmax\<close>.
\<close>

definition rne :: "rat \<Rightarrow> int" where
  "rne z = (let n = \<lfloor>z\<rfloor>; d = z - of_int n
            in if d < 1 / 2 then n else if 1 / 2 < d then n + 1 else if even n then n else n + 1)"

definition round_shift :: "nat \<Rightarrow> rat \<Rightarrow> nat" where
  "round_shift p X = nat (bitlen \<lfloor>X\<rfloor> - int p)"

definition rnd :: "nat \<Rightarrow> rat \<Rightarrow> int" where
  "rnd p X = rne (X / 2 ^ round_shift p X) * 2 ^ round_shift p X"

definition units :: "fp_format \<Rightarrow> rat" where
  "units f = 2 ^ (emax f + precision f - 2)"

definition fmax :: "fp_format \<Rightarrow> rat" where
  "fmax f = (2 ^ precision f - 1) * 2 ^ (emax f + 1 - precision f)"

definition round_magnitude :: "fp_format \<Rightarrow> rat \<Rightarrow> rat" where
  "round_magnitude f x = of_int (rnd (precision f) (x * units f)) / units f"

definition fl :: "fp_format \<Rightarrow> rat \<Rightarrow> fp" where
  "fl f x = (let y = round_magnitude f \<bar>x\<bar>
             in if fmax f < y then (if x < 0 then NInf else PInf)
                else Finite (if x < 0 then - y else y))"

text \<open>
  The operations \<open>-x\<close>, \<open>x + y\<close>, \<open>x - y\<close>, \<open>x * y\<close>, \<open>x / y\<close> and
  \<open>x <= y\<close> of IEEE 754.
\<close>

fun fp_neg :: "fp \<Rightarrow> fp" where
  "fp_neg (Finite x) = Finite (- x)"
| "fp_neg PInf = NInf"
| "fp_neg NInf = PInf"
| "fp_neg NaN = NaN"

fun fp_add :: "fp_format \<Rightarrow> fp \<Rightarrow> fp \<Rightarrow> fp" where
  "fp_add f (Finite x) (Finite y) = fl f (x + y)"
| "fp_add f NaN _ = NaN"
| "fp_add f _ NaN = NaN"
| "fp_add f PInf NInf = NaN"
| "fp_add f NInf PInf = NaN"
| "fp_add f PInf _ = PInf"
| "fp_add f _ PInf = PInf"
| "fp_add f NInf _ = NInf"
| "fp_add f _ NInf = NInf"

definition fp_sub :: "fp_format \<Rightarrow> fp \<Rightarrow> fp \<Rightarrow> fp" where
  "fp_sub f a b = fp_add f a (fp_neg b)"

fun fp_mul :: "fp_format \<Rightarrow> fp \<Rightarrow> fp \<Rightarrow> fp" where
  "fp_mul f (Finite x) (Finite y) = fl f (x * y)"
| "fp_mul f NaN _ = NaN"
| "fp_mul f _ NaN = NaN"
| "fp_mul f PInf (Finite y) = (if y = 0 then NaN else if 0 < y then PInf else NInf)"
| "fp_mul f NInf (Finite y) = (if y = 0 then NaN else if 0 < y then NInf else PInf)"
| "fp_mul f (Finite x) PInf = (if x = 0 then NaN else if 0 < x then PInf else NInf)"
| "fp_mul f (Finite x) NInf = (if x = 0 then NaN else if 0 < x then NInf else PInf)"
| "fp_mul f PInf PInf = PInf"
| "fp_mul f NInf NInf = PInf"
| "fp_mul f PInf NInf = NInf"
| "fp_mul f NInf PInf = NInf"

fun fp_div :: "fp_format \<Rightarrow> fp \<Rightarrow> fp \<Rightarrow> fp" where
  "fp_div f (Finite x) (Finite y) =
     (if y = 0 then (if x = 0 then NaN else if 0 < x then PInf else NInf) else fl f (x / y))"
| "fp_div f NaN _ = NaN"
| "fp_div f _ NaN = NaN"
| "fp_div f (Finite x) _ = Finite 0"
| "fp_div f PInf (Finite y) = (if 0 \<le> y then PInf else NInf)"
| "fp_div f NInf (Finite y) = (if 0 \<le> y then NInf else PInf)"
| "fp_div f _ _ = NaN"

fun fp_le :: "fp \<Rightarrow> fp \<Rightarrow> bool" where
  "fp_le (Finite x) (Finite y) = (x \<le> y)"
| "fp_le NaN _ = False"
| "fp_le _ NaN = False"
| "fp_le NInf _ = True"
| "fp_le _ PInf = True"
| "fp_le _ _ = False"

text \<open>The conversion of an integer to the format.\<close>

definition fp_of_int :: "fp_format \<Rightarrow> int \<Rightarrow> fp" where
  "fp_of_int f k = fl f (of_int k)"

text \<open>
  \<open>std::generate_canonical<T, digits>(urng)\<close> as libstdc++ (\<open>bits/random.tcc\<close>, GCC 11 to
  15) implements it: \<open>m = max(1, ceil(digits / 32))\<close> draws of the 32-bit generator are
  summed with the weights \<open>1, 2^32, ...\<close>, the sum is divided by \<open>2^(32 m)\<close>, and a quotient
  that rounds up to 1 is replaced by the largest value below 1
  (\<open>std::nextafter(T(1), T(0))\<close>).  Every operation is rounded to \<open>T\<close>.
\<close>

definition canon_m :: "fp_format \<Rightarrow> nat" where
  "canon_m f = max 1 ((precision f + 32 - 1) div 32)"

text \<open>
  The formats that the lemmas on rounding are proved for: at least one significand bit, an
  exponent range that holds the significand, and \<open>2 ^ (32 * m)\<close>, the largest power that
  \<open>generate_canonical\<close> divides by, finite with room to spare.  The three formats above are
  such formats (\<open>valid_format_format_of\<close> below).
\<close>

definition valid_format :: "fp_format \<Rightarrow> bool" where
  "valid_format f =
     (0 < precision f \<and> precision f \<le> emax f + 1 \<and> 2 \<le> emax f \<and>
      32 * canon_m f + 1 \<le> emax f)"

primrec canonical_sum ::
  "fp_format \<Rightarrow> nat \<Rightarrow> fp \<Rightarrow> fp \<Rightarrow> mt19937 \<Rightarrow> fp \<times> fp \<times> mt19937" where
  "canonical_sum f 0 acc tmp g = (acc, tmp, g)"
| "canonical_sum f (Suc k) acc tmp g =
     (let (u, g1) = mt_next g;
          acc1 = fp_add f acc (fp_mul f (fp_of_int f (uint u)) tmp);
          tmp1 = fp_mul f tmp (Finite (2 ^ 32))
      in canonical_sum f k acc1 tmp1 g1)"

definition generate_canonical :: "fp_format \<Rightarrow> mt19937 \<Rightarrow> fp \<times> mt19937" where
  "generate_canonical f urng =
     (let (acc, tmp, g) = canonical_sum f (canon_m f) (Finite 0) (Finite 1) urng;
          ret = fp_div f acc tmp
      in (if fp_le (Finite 1) ret then Finite (1 - 1 / 2 ^ precision f) else ret, g))"

text \<open>
  \<open>operator()\<close> of \<open>std::uniform_real_distribution<T>\<close> constructed with \<open>(a, b)\<close>:
  \<open>return (__aurng() * (__p.b() - __p.a())) + __p.a()\<close>, the difference, the product and
  the sum each rounded to \<open>T\<close> (no fused multiply-add, as on baseline x86-64).  The library
  checks nothing about \<open>a\<close> and \<open>b\<close> here, and a draw always returns.
\<close>

definition uniform_real_distribution_of :: "fp_format \<Rightarrow> fp distribution" where
  "uniform_real_distribution_of f a b urng =
     (let (r, g) = generate_canonical f urng
      in Some (fp_add f (fp_mul f r (fp_sub f b a)) a, g))"

text \<open>
  The header as an instantiation for the floating-point element type \<open>T\<close> sees it:
  \<open>std::conditional\<close> only names \<open>std::uniform_int_distribution<T>\<close>; it is never
  instantiated, and it has no draws.
\<close>

definition libstdcxx_real :: "ctype \<Rightarrow> fp random_header" where
  "libstdcxx_real T =
     \<lparr>uniform_int_distribution = (\<lambda>a b g. None),
      uniform_real_distribution = uniform_real_distribution_of (format_of T)\<rparr>"

section \<open>The template head and the body of \<open>fillRnd\<close>\<close>

text \<open>
  What the template looks at in the deduced container type \<open>T\<close>: its member type
  \<open>value_type\<close> (if it has one); whether \<open>std::declval<T>().begin()\<close> and
  \<open>std::declval<T>().end()\<close> are well-formed, which is what \<open>is_iterable\<close> asks about an
  rvalue of \<open>T\<close>; and whether \<open>arr.begin()\<close> and \<open>arr.end()\<close> are well-formed for the
  parameter \<open>T &arr\<close>, an lvalue, which is what the body calls.  For the standard containers
  all four hold.  A member function declared with the ref-qualifier \<open>&\<close> can be called on
  an lvalue only.
\<close>

record container_type =
  value_type :: "ctype option"
  rvalue_begin :: bool
  rvalue_end :: bool
  lvalue_begin :: bool
  lvalue_end :: bool

text \<open>
  \<open>is_iterable<T>\<close>: the partial specialisation deriving from \<open>std::true_type\<close> is chosen
  exactly when both \<open>decltype\<close> expressions inside \<open>std::void_t\<close> are well-formed.
\<close>

definition is_iterable :: "container_type \<Rightarrow> bool" where
  "is_iterable T = (rvalue_begin T \<and> rvalue_end T)"

text \<open>
  The types a template argument can name here.  \<open>std::enable_if<B, T>\<close> is a class template:
  the specialisation is a type for either value of \<open>B\<close>, and only its member \<open>type\<close> exists
  exactly when \<open>B\<close> is true.
\<close>

datatype template_argument = Void | Enable_if bool template_argument


text \<open>
  The second template parameter of \<open>fillRnd\<close> is
  \<open>typename = std::enable_if<std::is_arithmetic<typename T::value_type>::value &&
  is_iterable<T>::value, void>\<close>: its default is the specialisation itself, not its member
  \<open>type\<close>.  Substituting \<open>T\<close> fails (\<open>None\<close>) only where a type that is named does not
  exist, here \<open>T::value_type\<close>.
\<close>

definition fillRnd_default_template_argument :: "container_type \<Rightarrow> template_argument option" where
  "fillRnd_default_template_argument T =
     (case value_type T of
        None \<Rightarrow> None
      | Some v \<Rightarrow> Some (Enable_if (is_arithmetic v \<and> is_iterable T) Void))"

text \<open>The template takes part in the call when the substitution succeeds.\<close>

definition fillRnd_substitution_succeeds :: "container_type \<Rightarrow> bool" where
  "fillRnd_substitution_succeeds T = (fillRnd_default_template_argument T \<noteq> None)"

text \<open>
  The body is instantiated for the template that was chosen; an error there stops the
  compilation.  \<open>disType dis(min, max)\<close> instantiates the distribution that
  \<open>std::conditional\<close> selected: \<open>std::uniform_int_distribution<value_type>\<close> for an
  integral element type, which libstdc++ compiles for every integral type but \<open>bool\<close>, and
  \<open>std::uniform_real_distribution<value_type>\<close> for every other element type, which has a
  \<open>static_assert\<close> that the type is a floating-point type.
\<close>

definition disType_instantiates :: "ctype \<Rightarrow> bool" where
  "disType_instantiates v = (if is_integral v then v \<noteq> T_bool else is_floating_point v)"

text \<open>
  \<open>std::generate(arr.begin(), arr.end(), ...)\<close> calls \<open>begin()\<close> and \<open>end()\<close> on the lvalue
  \<open>arr\<close>.  (What they return is taken to be a pair of iterators over \<open>value_type\<close>.)
\<close>

definition fillRnd_body_instantiates :: "container_type \<Rightarrow> bool" where
  "fillRnd_body_instantiates T =
     (case value_type T of
        None \<Rightarrow> False
      | Some v \<Rightarrow> disType_instantiates v \<and> lvalue_begin T \<and> lvalue_end T)"

text \<open>A call \<open>fillRnd(arr, min, max, seed)\<close> with \<open>arr\<close> of type \<open>T\<close> compiles.\<close>

definition fillRnd_compiles :: "container_type \<Rightarrow> bool" where
  "fillRnd_compiles T = (fillRnd_substitution_succeeds T \<and> fillRnd_body_instantiates T)"

section \<open>The display helpers\<close>

text \<open>
  The output stream is the text written to it so far; \<open>put x\<close> is the text that
  \<open>out << x\<close> writes for an element.  \<open>std::copy\<close> to a
  \<open>std::ostream_iterator<T>(out, ", ")\<close> writes every element followed by the delimiter.
\<close>

definition copy_to_ostream_iterator ::
  "('a \<Rightarrow> string) \<Rightarrow> string \<Rightarrow> 'a list \<Rightarrow> string \<Rightarrow> string" where
  "copy_to_ostream_iterator put delim xs out = fold (\<lambda>x acc. acc @ put x @ delim) xs out"

text \<open>\<open>operator<<\<close> for \<open>std::vector<T>\<close>.\<close>

definition shift_out_vector :: "('a \<Rightarrow> string) \<Rightarrow> string \<Rightarrow> 'a list \<Rightarrow> string" where
  "shift_out_vector put out v =
     (if v \<noteq> [] then
        (let out1 = out @ ''['';
             out2 = copy_to_ostream_iterator put '', '' (butlast v) out1
         in out2 @ put (last v) @ '']'')
      else out)"

text \<open>\<open>operator<<\<close> for \<open>std::array<T, SIZE>\<close>; \<open>SIZE\<close> is the length of the list.\<close>

definition shift_out_array :: "('a \<Rightarrow> string) \<Rightarrow> string \<Rightarrow> 'a list \<Rightarrow> string" where
  "shift_out_array put out a =
     (if a \<noteq> [] then
        (let out1 = out @ ''['';
             out2 = copy_to_ostream_iterator put '', '' (butlast a) out1
         in out2 @ put (last a) @ '']'')
      else out)"

text \<open>
  The rendering the specification describes: a bracketed list of the elements, in order,
  separated by commas.
\<close>

fun comma_separated :: "string list \<Rightarrow> string" where
  "comma_separated [] = []"
| "comma_separated [s] = s"
| "comma_separated (s # t # ss) = s @ '', '' @ comma_separated (t # ss)"

definition spec_bracketed_list :: "('a \<Rightarrow> string) \<Rightarrow> 'a list \<Rightarrow> string" where
  "spec_bracketed_list put xs = ''['' @ comma_separated (map put xs) @ '']''"

section \<open>Facts about \<open>std::generate\<close>\<close>

lemma generate_length:
  "generate xs gen g = Some (ys, g') \<Longrightarrow> length ys = length xs"
proof (induction xs arbitrary: ys g)
  case Nil
  then show ?case by simp
next
  case (Cons x xs)
  then show ?case
    by (auto split: option.splits prod.splits)
qed

lemma generate_ignores_contents:
  "length xs = length ys \<Longrightarrow> generate xs gen g = generate ys gen g"
proof (induction xs ys arbitrary: g rule: list_induct2)
  case Nil
  show ?case by simp
next
  case (Cons x xs y ys)
  show ?case
  proof (cases "gen g")
    case None
    then show ?thesis by simp
  next
    case (Some p)
    obtain v g1 where p: "p = (v, g1)" by (cases p)
    from Cons.IH [of g1] Some p show ?thesis by simp
  qed
qed

lemma generate_returns:
  "\<forall>g. gen g \<noteq> None \<Longrightarrow> \<exists>ys g'. generate xs gen g = Some (ys, g')"
proof (induction xs arbitrary: g)
  case Nil
  show ?case by simp
next
  case (Cons x xs)
  from Cons.prems obtain v g1 where d: "gen g = Some (v, g1)"
    by (metis not_None_eq surj_pair)
  from Cons.IH [OF Cons.prems, of g1] obtain ys g2 where "generate xs gen g1 = Some (ys, g2)"
    by blast
  with d show ?case by simp
qed

lemma generate_drawn:
  "generate xs gen g = Some (ys, g') \<Longrightarrow> e \<in> set ys \<Longrightarrow> \<exists>h h'. gen h = Some (e, h')"
proof (induction xs arbitrary: ys g)
  case Nil
  then show ?case by simp
next
  case (Cons x xs)
  then show ?case
    by (fastforce split: option.splits prod.splits)
qed

lemma generate_nth:
  "generate xs gen g = Some (ys, g') \<Longrightarrow> i < length xs \<Longrightarrow>
     \<exists>h h'. after_draws i gen g = Some h \<and> gen h = Some (ys ! i, h')"
proof (induction xs arbitrary: ys g i)
  case Nil
  then show ?case by simp
next
  case (Cons x xs)
  from Cons.prems(1) obtain v g1 zs where
    d: "gen g = Some (v, g1)" and r: "generate xs gen g1 = Some (zs, g')" and ys: "ys = v # zs"
    by (auto split: option.splits prod.splits)
  show ?case
  proof (cases i)
    case 0
    with d ys show ?thesis by simp
  next
    case (Suc j)
    with Cons.prems(2) have "j < length xs" by simp
    from Cons.IH [OF r this] Suc d ys show ?thesis by simp
  qed
qed

lemma generate_prefix:
  "length xs \<le> length zs \<Longrightarrow> generate zs gen g = Some (ys, g') \<Longrightarrow>
     \<exists>h. generate xs gen g = Some (take (length xs) ys, h)"
proof (induction xs arbitrary: zs g ys)
  case Nil
  then show ?case by simp
next
  case (Cons x xs)
  from Cons.prems(1) obtain z zs' where zs: "zs = z # zs'" by (cases zs) auto
  from Cons.prems(2) zs obtain v g1 ws where
    d: "gen g = Some (v, g1)" and r: "generate zs' gen g1 = Some (ws, g')" and ys: "ys = v # ws"
    by (auto split: option.splits prod.splits)
  from Cons.prems(1) zs have "length xs \<le> length zs'" by simp
  from Cons.IH [OF this r] obtain h where "generate xs gen g1 = Some (take (length xs) ws, h)"
    by blast
  with d ys show ?case by simp
qed

lemma generate_returns_along_run:
  "\<forall>i<length xs. \<exists>h. after_draws i gen g = Some h \<and> gen h \<noteq> None \<Longrightarrow>
     \<exists>ys g'. generate xs gen g = Some (ys, g')"
proof (induction xs arbitrary: g)
  case Nil
  show ?case by simp
next
  case (Cons x xs)
  from Cons.prems [rule_format, of 0] obtain v g1 where d: "gen g = Some (v, g1)"
    by auto
  have "\<forall>i<length xs. \<exists>h. after_draws i gen g1 = Some h \<and> gen h \<noteq> None"
  proof (intro allI impI)
    fix i
    assume "i < length xs"
    then have "Suc i < length (x # xs)" by simp
    from Cons.prems [rule_format, OF this] d
    show "\<exists>h. after_draws i gen g1 = Some h \<and> gen h \<noteq> None" by simp
  qed
  from Cons.IH [OF this] obtain ys g2 where "generate xs gen g1 = Some (ys, g2)"
    by blast
  with d show ?case by simp
qed

section \<open>Facts about the generator\<close>

lemma length_mt_seed_words: "length (mt_seed_words n i prev) = n"
  by (induction n arbitrary: i prev) (simp_all add: Let_def)

lemma length_mt19937_seed: "length (mt_x (mt19937_seed seed)) = 624"
  by (simp add: mt19937_seed_def Let_def length_mt_seed_words)

lemma length_mt_twist_step: "length (mt_twist_step k x) = length x"
  by (simp add: mt_twist_step_def)

lemma length_fold_mt_twist_step: "length (fold mt_twist_step ks x) = length x"
  by (induction ks arbitrary: x) (simp_all add: length_mt_twist_step)

lemma mt_twist_step_other: "j \<noteq> k \<Longrightarrow> mt_twist_step j x ! k = x ! k"
  by (simp add: mt_twist_step_def)

lemma fold_mt_twist_step_other: "k \<notin> set ks \<Longrightarrow> fold mt_twist_step ks x ! k = x ! k"
  by (induction ks arbitrary: x) (simp_all add: mt_twist_step_other)

lemma mt_gen_rand_nth_low:
  assumes len: "length x = 624" and k: "k < 227" and k1: "k1 = Suc k" and km: "km = k + 397"
  shows "mt_gen_rand x ! k = mt_twist_value (x ! k) (x ! k1) (x ! km)"
proof -
  define x1 where "x1 = fold mt_twist_step [0..<k] x"
  have split: "[0..<624] = [0..<k] @ k # [Suc k..<624]"
    using k upt_conv_Cons [of k 624] upt_add_eq_append [of 0 k "624 - k"] by simp
  have len1: "length x1 = 624"
    by (simp add: x1_def length_fold_mt_twist_step len)
  have same: "x1 ! k = x ! k" "x1 ! k1 = x ! k1" "x1 ! km = x ! km"
    by (simp_all add: x1_def fold_mt_twist_step_other k1 km)
  have "mt_gen_rand x ! k = fold mt_twist_step [Suc k..<624] (mt_twist_step k x1) ! k"
    by (simp add: mt_gen_rand_def split x1_def)
  also have "\<dots> = mt_twist_step k x1 ! k"
    by (simp add: fold_mt_twist_step_other)
  also have "\<dots> = mt_twist_value (x1 ! k) (x1 ! k1) (x1 ! km)"
    using k len1 by (simp add: mt_twist_step_def k1 km)
  finally show ?thesis by (simp only: same)
qed

lemma mt_next_in_block:
  "p < 624 \<Longrightarrow> mt_next \<lparr>mt_x = X, mt_p = p\<rparr> = (mt_temper (X ! p), \<lparr>mt_x = X, mt_p = Suc p\<rparr>)"
  by (simp add: mt_next_def Let_def)

lemma mt_next_seeded:
  "mt_next (mt19937_seed seed) =
     mt_next \<lparr>mt_x = mt_gen_rand (mt_x (mt19937_seed seed)), mt_p = 0\<rparr>"
  by (simp add: mt_next_def Let_def mt19937_seed_def)

lemma take_mt_gen_rand:
  assumes len: "length x = 624"
  shows "take 10 (mt_gen_rand x) =
           map (\<lambda>(xk, xk1, xkm). mt_twist_value xk xk1 xkm)
             (zip (take 10 x) (zip (take 10 (drop 1 x)) (take 10 (drop 397 x))))"
proof (rule nth_equalityI)
  show "length (take 10 (mt_gen_rand x)) =
          length (map (\<lambda>(xk, xk1, xkm). mt_twist_value xk xk1 xkm)
             (zip (take 10 x) (zip (take 10 (drop 1 x)) (take 10 (drop 397 x)))))"
    by (simp add: mt_gen_rand_def length_fold_mt_twist_step len)
next
  fix i
  assume "i < length (take 10 (mt_gen_rand x))"
  then have i: "i < 10" by simp
  then have "mt_gen_rand x ! i = mt_twist_value (x ! i) (x ! Suc i) (x ! (i + 397))"
    by (intro mt_gen_rand_nth_low [OF len]) simp_all
  with i show "take 10 (mt_gen_rand x) ! i =
      map (\<lambda>(xk, xk1, xkm). mt_twist_value xk xk1 xkm)
        (zip (take 10 x) (zip (take 10 (drop 1 x)) (take 10 (drop 397 x)))) ! i"
    by (simp add: len add.commute)
qed

lemma length_mt_gen_rand: "length (mt_gen_rand x) = length x"
  by (simp add: mt_gen_rand_def length_fold_mt_twist_step)

text \<open>
  A check of the model against the reference output of the engine: seeded with 5489, the
  default seed of the standard, the first word it hands out is 3499211612.
\<close>

lemma seeded_5489:
  "map ((!) (mt_x (mt19937_seed 5489))) [0, 1, 397] = [5489, 1301868182, 3183906156]"
  by code_simp

lemma mt19937_default_seed_first_output:
  "fst (mt_next (mt19937_seed 5489)) = 3499211612"
proof -
  from seeded_5489 have s:
    "mt_x (mt19937_seed 5489) ! 0 = 5489"
    "mt_x (mt19937_seed 5489) ! 1 = 1301868182"
    "mt_x (mt19937_seed 5489) ! 397 = 3183906156"
    by simp_all
  have "mt_gen_rand (mt_x (mt19937_seed 5489)) ! 0 =
          mt_twist_value 5489 1301868182 3183906156"
    using mt_gen_rand_nth_low
      [OF length_mt19937_seed [of 5489], where k = 0 and ?k1.0 = 1 and km = 397]
    unfolding s by simp
  then show ?thesis
    by (simp add: mt_next_seeded mt_next_in_block mt_twist_value_def mt_temper_def Let_def)
qed

section \<open>Facts about the integer distribution\<close>

lemma unat_ucast_32_64:
  fixes r :: "32 word"
  shows "unat (ucast r :: 64 word) = unat r"
proof -
  have "unat r < 2 ^ 32"
    using unsigned_less [of r] by simp
  then have "unat r < 2 ^ 64" by simp
  then show ?thesis
    by (simp add: unsigned_ucast_eq take_bit_nat_eq_self)
qed

lemma unat_high_half:
  fixes r e :: "32 word"
  shows "unat (ucast (drop_bit 32 (ucast r * ucast e :: 64 word)) :: 32 word) =
           unat r * unat e div 2 ^ 32"
proof -
  have r: "unat r < 2 ^ 32" and e: "unat e < 2 ^ 32"
    using unsigned_less [of r] unsigned_less [of e] by simp_all
  then have "unat r * unat e < 2 ^ 32 * 2 ^ 32"
    by (intro mult_strict_mono) simp_all
  then have prod: "unat r * unat e < 2 ^ 64" by simp
  have "unat (ucast r * ucast e :: 64 word) = unat r * unat e"
    using prod by (simp add: unat_word_ariths unat_ucast_32_64)
  then have "drop_bit 32 (unat (ucast r * ucast e :: 64 word)) = unat r * unat e div 2 ^ 32"
    by (simp add: drop_bit_eq_div)
  then have d: "unat (drop_bit 32 (ucast r * ucast e :: 64 word)) = unat r * unat e div 2 ^ 32"
    by (simp only: unat_drop_bit_eq)
  have "unat r * unat e div 2 ^ 32 < 2 ^ 32"
    using prod by (simp add: less_mult_imp_div_less)
  then show ?thesis
    using d by (simp add: unsigned_ucast_eq take_bit_nat_eq_self)
qed

lemma high_half_less:
  fixes r e :: "32 word"
  assumes "e \<noteq> 0"
  shows "unat (ucast (drop_bit 32 (ucast r * ucast e :: 64 word)) :: 32 word) < unat e"
proof -
  have r: "unat r < 2 ^ 32"
    using unsigned_less [of r] by simp
  from assms have "0 < unat e" by (simp add: unat_gt_0)
  with r have "unat r * unat e < 2 ^ 32 * unat e"
    by simp
  then have "unat r * unat e div 2 ^ 32 < unat e"
    by (simp add: less_mult_imp_div_less mult.commute)
  then show ?thesis by (simp add: unat_high_half)
qed

lemma S_nd_loop_product:
  assumes "S_nd_loop g e t p = Some y"
  shows "fst y = p \<or> (\<exists>r :: 32 word. fst y = ucast r * ucast e)"
proof (rule S_nd_loop.raw_induct
    [where P = "\<lambda>g e t p y. fst y = p \<or> (\<exists>r :: 32 word. fst y = ucast r * ucast e)",
     OF _ assms])
  fix f :: "mt19937 \<Rightarrow> 32 word \<Rightarrow> 32 word \<Rightarrow> 64 word \<Rightarrow> (64 word \<times> mt19937) option"
    and g e t p y
  assume IH: "\<And>g e t p y. f g e t p = Some y \<Longrightarrow>
                fst y = p \<or> (\<exists>r :: 32 word. fst y = ucast r * ucast e)"
    and step: "(if (ucast p :: 32 word) < t
                then let (r, g1) = mt_next g in f g1 e t (ucast r * ucast e)
                else Some (p, g)) = Some y"
  show "fst y = p \<or> (\<exists>r :: 32 word. fst y = ucast r * ucast e)"
  proof (cases "(ucast p :: 32 word) < t")
    case True
    obtain r g1 where n: "mt_next g = (r, g1)" by (cases "mt_next g")
    from step True n have "f g1 e t (ucast r * ucast e) = Some y" by simp
    from IH [OF this] show ?thesis by blast
  next
    case False
    with step show ?thesis by auto
  qed
qed

lemma S_nd_less:
  assumes "S_nd g e = Some (ret, g')" and "e \<noteq> 0"
  shows "unat ret < unat e"
proof -
  obtain r g1 where n: "mt_next g = (r, g1)" by (cases "mt_next g")
  from assms(1) n obtain p where
    ret: "ret = ucast (drop_bit 32 p)" and
    p: "p = ucast r * ucast e \<or> S_nd_loop g1 e ((- e) mod e) (ucast r * ucast e) = Some (p, g')"
    by (auto simp: S_nd_def Let_def split: if_splits)
  from p S_nd_loop_product [of g1 e "(- e) mod e" "ucast r * ucast e" "(p, g')"]
  obtain r' :: "32 word" where "p = ucast r' * ucast e" by auto
  with ret high_half_less [OF assms(2), of r'] show ?thesis by simp
qed

lemma add_a_signed_take_bit: "add_a ret a = signed_take_bit 31 (uint ret + a)"
proof -
  have "uint (ret + word_of_int a :: 64 word) = take_bit 64 (uint ret + a)"
    by (simp add: uint_word_ariths uint_word_of_int_eq take_bit_eq_mod mod_simps)
  moreover have "uint (ucast (ret + word_of_int a) :: 32 word) =
      take_bit 32 (uint (ret + word_of_int a))"
    by (simp add: unsigned_ucast_eq)
  ultimately have "uint (ucast (ret + word_of_int a) :: 32 word) = take_bit 32 (uint ret + a)"
    by (simp add: take_bit_take_bit)
  moreover have "sint (ucast (ret + word_of_int a) :: 32 word) =
      signed_take_bit 31 (uint (ucast (ret + word_of_int a) :: 32 word))"
    by (simp add: sint_uint)
  ultimately show ?thesis
    by (simp add: add_a_def signed_take_bit_take_bit)
qed

lemma add_a_exact:
  assumes "- (2 ^ 31) \<le> a + uint ret" and "a + uint ret < 2 ^ 31"
  shows "add_a ret a = a + uint ret"
  using assms by (simp add: add_a_signed_take_bit signed_take_bit_int_eq_self add.commute)

lemma add_a_range: "- (2 ^ 31) \<le> add_a ret a \<and> add_a ret a < 2 ^ 31"
  using sint_ge [of "ucast (ret + word_of_int a) :: 32 word"]
        sint_lt [of "ucast (ret + word_of_int a) :: 32 word"]
  by (simp add: add_a_def)

lemma uint_urange:
  assumes "a \<le> b" and "- (2 ^ 31) \<le> a" and "b < 2 ^ 31"
  shows "uint (word_of_int b - word_of_int a :: 64 word) = b - a"
proof -
  have "0 \<le> b - a" "b - a < 2 ^ 64"
    using assms by simp_all
  then have "take_bit 64 (b - a) = b - a"
    by (simp only: take_bit_int_eq_self)
  moreover have "uint (word_of_int b - word_of_int a :: 64 word) = take_bit LENGTH(64) (b - a)"
    by (simp only: wi_hom_sub uint_word_of_int_eq)
  ultimately show ?thesis by simp
qed

lemma uint_uerange:
  fixes urange :: "64 word"
  assumes "uint urange < 4294967295"
  shows "uint (ucast (urange + 1) :: 32 word) = uint urange + 1"
proof -
  have "0 \<le> uint urange" by simp
  with assms have "(uint urange + 1) mod 2 ^ 64 = uint urange + 1"
    by (intro mod_pos_pos_trivial) simp_all
  then have "uint (urange + 1) = uint urange + 1"
    by (simp add: uint_word_ariths)
  moreover have "take_bit 32 (uint urange + 1) = uint urange + 1"
    using assms by (intro take_bit_int_eq_self) simp_all
  ultimately show ?thesis
    by (simp add: unsigned_ucast_eq)
qed

lemma S_nd_at_most:
  fixes urange :: "64 word"
  assumes s: "S_nd g (ucast (urange + 1)) = Some (ret, g')" and small: "uint urange < 4294967295"
  shows "uint (ucast ret :: 64 word) \<le> uint urange"
proof -
  have ue: "uint (ucast (urange + 1) :: 32 word) = uint urange + 1"
    using small by (rule uint_uerange)
  have "uint (ucast (urange + 1) :: 32 word) \<noteq> 0"
    using uint_ge_0 [of urange] ue by linarith
  then have "(ucast (urange + 1) :: 32 word) \<noteq> 0"
  proof (rule contrapos_nn)
    assume "(ucast (urange + 1) :: 32 word) = 0"
    then show "uint (ucast (urange + 1) :: 32 word) = 0" by simp
  qed
  from S_nd_less [OF s this] have "ret < ucast (urange + 1)"
    by (simp only: word_less_nat_alt)
  then have "uint ret < uint (ucast (urange + 1) :: 32 word)"
    by (simp only: word_less_def)
  with ue have "uint ret \<le> uint urange" by simp
  moreover have "uint (ucast ret :: 64 word) = uint ret"
    by (rule uint_up_ucast) (simp add: is_up)
  ultimately show ?thesis by simp
qed

lemma uniform_int_distribution_int_within_bounds:
  "within_bounds uniform_int_distribution_int"
  unfolding within_bounds_def
proof (intro allI impI)
  fix a b :: int and g v g'
  assume ab: "a \<le> b" and draw: "uniform_int_distribution_int a b g = Some (v, g')"
  from draw have lo: "- (2 ^ 31) \<le> a" and hi: "b < 2 ^ 31"
    by (auto simp: uniform_int_distribution_int_def split: if_splits)
  define urange :: "64 word" where "urange = word_of_int b - word_of_int a"
  have ur: "uint urange = b - a"
    unfolding urange_def using ab lo hi by (rule uint_urange)
  show "a \<le> v \<and> v \<le> b"
  proof (cases "urange < 0xffffffff")
    case True
    then have small: "uint urange < 4294967295"
      by (simp add: word_less_def)
    from draw lo hi ab True [unfolded urange_def] obtain ret where
      s: "S_nd g (ucast (urange + 1)) = Some (ret, g')" and v: "v = add_a (ucast ret) a"
      by (auto simp: uniform_int_distribution_int_def urange_def Let_def)
    have r: "uint (ucast ret :: 64 word) \<le> b - a"
      using S_nd_at_most [OF s small] ur by simp
    have "- (2 ^ 31) \<le> a + uint (ucast ret :: 64 word)"
      using lo uint_ge_0 [of "ucast ret :: 64 word"] by linarith
    moreover have "a + uint (ucast ret :: 64 word) < 2 ^ 31"
      using r hi by linarith
    ultimately have "add_a (ucast ret) a = a + uint (ucast ret :: 64 word)"
      by (rule add_a_exact)
    with v r uint_ge_0 [of "ucast ret :: 64 word"] show ?thesis by linarith
  next
    case False
    show ?thesis
    proof (cases "0xffffffff < urange")
      case True
      with False draw lo hi ab show ?thesis
        by (simp add: uniform_int_distribution_int_def urange_def Let_def)
    next
      case up: False
      with False have "urange = 0xffffffff" by simp
      then have "b - a = 4294967295"
        using ur by simp
      with lo hi have "a = - (2 ^ 31)" "b = 2 ^ 31 - 1" by simp_all
      moreover from draw lo hi ab False [unfolded urange_def] up [unfolded urange_def]
      obtain r where "v = add_a r a"
        by (auto simp: uniform_int_distribution_int_def Let_def split: prod.splits)
      ultimately show ?thesis
        using add_a_range [of r a] by simp
    qed
  qed
qed

lemma uniform_int_distribution_int_1_8_returns:
  "uniform_int_distribution_int 1 8 g \<noteq> None"
proof -
  obtain r g1 where n: "mt_next g = (r, g1)" by (cases "mt_next g")
  have "S_nd_loop g1 8 0 (ucast r * 8) = Some (ucast r * 8, g1)"
    by (subst S_nd_loop.simps) simp
  then have "S_nd g 8 \<noteq> None"
    using n by (simp add: S_nd_def Let_def)
  then show ?thesis
    by (simp add: uniform_int_distribution_int_def Let_def)
qed

lemma uniform_int_distribution_int_1_10:
  assumes "mt_next g = (r, g1)"
    and "\<not> (ucast (ucast r * 10 :: 64 word) :: 32 word) < 10"
  shows "uniform_int_distribution_int 1 10 g =
           Some (add_a (ucast (ucast (drop_bit 32 (ucast r * 10 :: 64 word)) :: 32 word)) 1, g1)"
  using assms by (simp add: uniform_int_distribution_int_def S_nd_def Let_def)

lemma generate_in_block:
  assumes "p + length arr \<le> 624" and "length X = 624"
    and "\<forall>x \<in> set (take (length arr) (drop p X)).
           \<not> (ucast (ucast (mt_temper x) * 10 :: 64 word) :: 32 word) < 10"
  shows "generate arr (uniform_int_distribution_int 1 10) \<lparr>mt_x = X, mt_p = p\<rparr> =
           Some (map (\<lambda>x. add_a (ucast (ucast (drop_bit 32 (ucast (mt_temper x) * 10 :: 64 word))
                                   :: 32 word)) 1)
                   (take (length arr) (drop p X)),
                 \<lparr>mt_x = X, mt_p = p + length arr\<rparr>)"
  using assms
proof (induction arr arbitrary: p)
  case Nil
  show ?case by simp
next
  case (Cons a arr)
  from Cons.prems(1) have p: "p < 624" by simp
  with Cons.prems(2) have unfold:
    "take (length (a # arr)) (drop p X) = X ! p # take (length arr) (drop (Suc p) X)"
    by (simp add: Cons_nth_drop_Suc [symmetric])
  have nxt: "mt_next \<lparr>mt_x = X, mt_p = p\<rparr> = (mt_temper (X ! p), \<lparr>mt_x = X, mt_p = Suc p\<rparr>)"
    using p by (rule mt_next_in_block)
  from Cons.prems(3) unfold
  have ok: "\<not> (ucast (ucast (mt_temper (X ! p)) * 10 :: 64 word) :: 32 word) < 10"
    and rest: "\<forall>x \<in> set (take (length arr) (drop (Suc p) X)).
           \<not> (ucast (ucast (mt_temper x) * 10 :: 64 word) :: 32 word) < 10"
    by simp_all
  from Cons.prems(1) have "Suc p + length arr \<le> 624" by simp
  from Cons.IH [OF this Cons.prems(2) rest]
    uniform_int_distribution_int_1_10 [OF nxt ok] unfold
  show ?case by simp
qed

lemma uniform_int_distribution_int_seeded:
  "uniform_int_distribution_int a b (mt19937_seed seed) =
     uniform_int_distribution_int a b \<lparr>mt_x = mt_gen_rand (mt_x (mt19937_seed seed)), mt_p = 0\<rparr>"
  by (simp add: uniform_int_distribution_int_def S_nd_def Let_def mt_next_seeded)

lemma generate_seeded:
  "map_option fst (generate arr (uniform_int_distribution_int a b) (mt19937_seed seed)) =
     map_option fst (generate arr (uniform_int_distribution_int a b)
       \<lparr>mt_x = mt_gen_rand (mt_x (mt19937_seed seed)), mt_p = 0\<rparr>)"
  by (cases arr) (simp_all add: uniform_int_distribution_int_seeded)

section \<open>The two runs of the demonstration on \<open>int\<close>\<close>

text \<open>
  \<open>fillRnd(v, 1, 10, 42)\<close> and \<open>fillRnd(a, 1, 10, 43)\<close> on ten elements.  Ten draws stay
  inside the first block of the generator, and entry \<open>k < 10\<close> of that block depends on the
  seeded words \<open>k\<close>, \<open>k + 1\<close> and \<open>k + 397\<close> only.
\<close>

lemma seeded_42:
  "map (\<lambda>n. take 10 (drop n (mt_x (mt19937_seed 42)))) [0, 1, 397] =
   [[42, 3107752595, 1895908407, 3900362577, 3030691166, 4081230161,
     2732361568, 1361238961, 3961642104, 867618704],
    [3107752595, 1895908407, 3900362577, 3030691166, 4081230161, 2732361568,
     1361238961, 3961642104, 867618704, 2837705690],
    [2930777301, 2831905121, 1436989598, 602730315, 664177960, 3959954010,
     3116042160, 2881899726, 233404945, 4058465099]]"
  by code_simp

lemma block_42:
  "take 10 (mt_gen_rand (mt_x (mt19937_seed 42))) =
     [723970371, 1229153189, 4170412009, 2042542564, 3342822751, 3177601514,
      1210243767, 2648089330, 1412570585, 3849763494]"
proof -
  from seeded_42 have s:
    "take 10 (mt_x (mt19937_seed 42)) =
       [42, 3107752595, 1895908407, 3900362577, 3030691166, 4081230161,
        2732361568, 1361238961, 3961642104, 867618704]"
    "take 10 (drop 1 (mt_x (mt19937_seed 42))) =
       [3107752595, 1895908407, 3900362577, 3030691166, 4081230161, 2732361568,
        1361238961, 3961642104, 867618704, 2837705690]"
    "take 10 (drop 397 (mt_x (mt19937_seed 42))) =
       [2930777301, 2831905121, 1436989598, 602730315, 664177960, 3959954010,
        3116042160, 2881899726, 233404945, 4058465099]"
    by simp_all
  show ?thesis
    unfolding take_mt_gen_rand [OF length_mt19937_seed] s
    by (simp add: mt_twist_value_def)
qed

lemma fillRnd_seed_42:
  assumes "length arr = 10"
  shows "fillRnd libstdcxx_int T_int arr 1 10 42 = Some [4, 8, 10, 2, 8, 8, 6, 6, 2, 5]"
proof -
  define X where "X = mt_gen_rand (mt_x (mt19937_seed 42))"
  have len: "length X = 624"
    by (simp add: X_def length_mt_gen_rand length_mt19937_seed)
  have blk: "take (length arr) (drop 0 X) =
     [723970371, 1229153189, 4170412009, 2042542564, 3342822751, 3177601514,
      1210243767, 2648089330, 1412570585, 3849763494]"
    using block_42 by (simp add: assms X_def)
  have ok: "\<forall>x \<in> set (take (length arr) (drop 0 X)).
           \<not> (ucast (ucast (mt_temper x) * 10 :: 64 word) :: 32 word) < 10"
    unfolding blk by (simp add: mt_temper_def Let_def)
  have "0 + length arr \<le> 624"
    using assms by simp
  from generate_in_block [OF this len ok]
  have "generate arr (uniform_int_distribution_int 1 10) \<lparr>mt_x = X, mt_p = 0\<rparr> =
          Some ([4, 8, 10, 2, 8, 8, 6, 6, 2, 5], \<lparr>mt_x = X, mt_p = 0 + length arr\<rparr>)"
    unfolding blk by (simp add: mt_temper_def add_a_def Let_def)
  then show ?thesis
    by (simp add: fillRnd_def disType_def libstdcxx_int_def generate_seeded X_def)
qed

lemma seeded_43:
  "map (\<lambda>n. take 10 (drop n (mt_x (mt19937_seed 43)))) [0, 1, 397] =
   [[43, 625218552, 1314101466, 902136170, 722716886, 1529004659, 4158896384, 4260337974,
    4109881073, 69347203],
    [625218552, 1314101466, 902136170, 722716886, 1529004659, 4158896384, 4260337974,
     4109881073, 69347203, 1093906873],
    [2347324430, 1834784330, 1912762406, 3456901107, 3882879809, 1812513948, 3975714948,
     2808442327, 798905246, 1971883244]]"
  by code_simp

lemma block_43:
  "take 10 (mt_gen_rand (mt_x (mt19937_seed 43))) =
     [2571853298, 1249204775, 1759555731, 3682991000, 1407834791, 1475942428, 2450478111,
      1142307440, 4102549632, 3424249071]"
proof -
  from seeded_43 have s:
    "take 10 (mt_x (mt19937_seed 43)) =
       [43, 625218552, 1314101466, 902136170, 722716886, 1529004659, 4158896384, 4260337974,
        4109881073, 69347203]"
    "take 10 (drop 1 (mt_x (mt19937_seed 43))) =
       [625218552, 1314101466, 902136170, 722716886, 1529004659, 4158896384, 4260337974,
        4109881073, 69347203, 1093906873]"
    "take 10 (drop 397 (mt_x (mt19937_seed 43))) =
       [2347324430, 1834784330, 1912762406, 3456901107, 3882879809, 1812513948, 3975714948,
        2808442327, 798905246, 1971883244]"
    by simp_all
  show ?thesis
    unfolding take_mt_gen_rand [OF length_mt19937_seed] s
    by (simp add: mt_twist_value_def)
qed

lemma fillRnd_seed_43:
  assumes "length arr = 10"
  shows "fillRnd libstdcxx_int T_int arr 1 10 43 = Some [2, 5, 7, 2, 2, 2, 3, 2, 4, 9]"
proof -
  define X where "X = mt_gen_rand (mt_x (mt19937_seed 43))"
  have len: "length X = 624"
    by (simp add: X_def length_mt_gen_rand length_mt19937_seed)
  have blk: "take (length arr) (drop 0 X) =
     [2571853298, 1249204775, 1759555731, 3682991000, 1407834791, 1475942428, 2450478111,
      1142307440, 4102549632, 3424249071]"
    using block_43 by (simp add: assms X_def)
  have ok: "\<forall>x \<in> set (take (length arr) (drop 0 X)).
           \<not> (ucast (ucast (mt_temper x) * 10 :: 64 word) :: 32 word) < 10"
    unfolding blk by (simp add: mt_temper_def Let_def)
  have "0 + length arr \<le> 624"
    using assms by simp
  from generate_in_block [OF this len ok]
  have "generate arr (uniform_int_distribution_int 1 10) \<lparr>mt_x = X, mt_p = 0\<rparr> =
          Some ([2, 5, 7, 2, 2, 2, 3, 2, 4, 9], \<lparr>mt_x = X, mt_p = 0 + length arr\<rparr>)"
    unfolding blk by (simp add: mt_temper_def add_a_def Let_def)
  then show ?thesis
    by (simp add: fillRnd_def disType_def libstdcxx_int_def generate_seeded X_def)
qed

text \<open>
  A third run, \<open>fillRnd(v, 1, 10, 1)\<close> on ten elements: its output holds both bounds.
\<close>

lemma seeded_1:
  "map (\<lambda>n. take 10 (drop n (mt_x (mt19937_seed 1)))) [0, 1, 397] =
   [[1, 1812433254, 3713160357, 3109174145, 64984499, 3392658084,
     446538473, 2629760756, 2453345558, 1394803949],
    [1812433254, 3713160357, 3109174145, 64984499, 3392658084, 446538473,
     2629760756, 2453345558, 1394803949, 1021787430],
    [2864168489, 108006277, 3976313352, 680217319, 173747636, 291134870,
     198587329, 595310009, 941470866, 2438488368]]"
  by code_simp

lemma block_1:
  "take 10 (mt_gen_rand (mt_x (mt19937_seed 1))) =
     [2629073562, 2983301384, 681580311, 4033622241, 792772838, 3306961981,
      92883131, 1785085746, 3364128315, 2402025379]"
proof -
  from seeded_1 have s:
    "take 10 (mt_x (mt19937_seed 1)) =
       [1, 1812433254, 3713160357, 3109174145, 64984499, 3392658084,
        446538473, 2629760756, 2453345558, 1394803949]"
    "take 10 (drop 1 (mt_x (mt19937_seed 1))) =
       [1812433254, 3713160357, 3109174145, 64984499, 3392658084, 446538473,
        2629760756, 2453345558, 1394803949, 1021787430]"
    "take 10 (drop 397 (mt_x (mt19937_seed 1))) =
       [2864168489, 108006277, 3976313352, 680217319, 173747636, 291134870,
        198587329, 595310009, 941470866, 2438488368]"
    by simp_all
  show ?thesis
    unfolding take_mt_gen_rand [OF length_mt19937_seed] s
    by (simp add: mt_twist_value_def)
qed

lemma fillRnd_seed_1:
  assumes "length arr = 10"
  shows "fillRnd libstdcxx_int T_int arr 1 10 1 = Some [5, 10, 8, 10, 1, 2, 4, 10, 2, 3]"
proof -
  define X where "X = mt_gen_rand (mt_x (mt19937_seed 1))"
  have len: "length X = 624"
    by (simp add: X_def length_mt_gen_rand length_mt19937_seed)
  have blk: "take (length arr) (drop 0 X) =
     [2629073562, 2983301384, 681580311, 4033622241, 792772838, 3306961981,
      92883131, 1785085746, 3364128315, 2402025379]"
    using block_1 by (simp add: assms X_def)
  have ok: "\<forall>x \<in> set (take (length arr) (drop 0 X)).
           \<not> (ucast (ucast (mt_temper x) * 10 :: 64 word) :: 32 word) < 10"
    unfolding blk by (simp add: mt_temper_def Let_def)
  have "0 + length arr \<le> 624"
    using assms by simp
  from generate_in_block [OF this len ok]
  have "generate arr (uniform_int_distribution_int 1 10) \<lparr>mt_x = X, mt_p = 0\<rparr> =
          Some ([5, 10, 8, 10, 1, 2, 4, 10, 2, 3], \<lparr>mt_x = X, mt_p = 0 + length arr\<rparr>)"
    unfolding blk by (simp add: mt_temper_def add_a_def Let_def)
  then show ?thesis
    by (simp add: fillRnd_def disType_def libstdcxx_int_def generate_seeded X_def)
qed

lemma upscaling_unreachable:
  assumes "a \<le> b" and "- (2 ^ 31) \<le> a" and "b < 2 ^ 31"
  shows "\<not> (0xffffffff :: 64 word) < word_of_int b - word_of_int a"
proof -
  have "b - a \<le> 4294967295"
    using assms by simp
  then have "uint (word_of_int b - word_of_int a :: 64 word) \<le> uint (0xffffffff :: 64 word)"
    using uint_urange [OF assms] by simp
  then show ?thesis
    by (simp only: word_less_def not_less)
qed

section \<open>Facts about the display helpers\<close>

lemma copy_to_ostream_iterator_concat:
  "copy_to_ostream_iterator put delim xs out = out @ concat (map (\<lambda>x. put x @ delim) xs)"
  unfolding copy_to_ostream_iterator_def
  by (induction xs arbitrary: out) simp_all

lemma comma_separated_snoc:
  "comma_separated (ss @ [s]) = concat (map (\<lambda>t. t @ '', '') ss) @ s"
  by (induction ss rule: comma_separated.induct) simp_all

lemma shift_out_vector_nonempty:
  assumes "v \<noteq> []"
  shows "shift_out_vector put out v = out @ spec_bracketed_list put v"
proof -
  have "map put v = map put (butlast v) @ [put (last v)]"
    using assms by (metis append_butlast_last_id list.simps(8) list.simps(9) map_append)
  then have "comma_separated (map put v) =
      concat (map (\<lambda>t. t @ '', '') (map put (butlast v))) @ put (last v)"
    by (simp only: comma_separated_snoc)
  then show ?thesis
    using assms
    by (simp add: shift_out_vector_def spec_bracketed_list_def
        copy_to_ostream_iterator_concat comp_def)
qed

lemma shift_out_array_eq: "shift_out_array put out a = shift_out_vector put out a"
  by (simp add: shift_out_array_def shift_out_vector_def)

section \<open>Facts about the template head and the body\<close>

text \<open>The condition inside \<open>std::enable_if\<close> has no part in whether the substitution succeeds.\<close>

lemma fillRnd_substitution_succeeds_iff:
  "fillRnd_substitution_succeeds T = (value_type T \<noteq> None)"
  by (simp add: fillRnd_substitution_succeeds_def fillRnd_default_template_argument_def
      split: option.splits)

text \<open>
  What a call that compiles has passed: the checks of the body.  The element type is
  arithmetic because the library's distributions do not compile otherwise, and \<open>begin()\<close>
  and \<open>end()\<close> exist on an lvalue because the body calls them; \<open>is_iterable\<close> is not among
  the checks.
\<close>

lemma disType_instantiates_arithmetic:
  "disType_instantiates v \<Longrightarrow> is_arithmetic v"
  by (simp add: disType_instantiates_def is_arithmetic_def split: if_splits)

lemma fillRnd_compiles_iff:
  "fillRnd_compiles T \<longleftrightarrow>
     (\<exists>v. value_type T = Some v \<and> disType_instantiates v \<and> lvalue_begin T \<and> lvalue_end T)"
  by (simp add: fillRnd_compiles_def fillRnd_body_instantiates_def
      fillRnd_substitution_succeeds_iff split: option.splits)

section \<open>The tempering of the generator is onto\<close>

text \<open>
  Every 32-bit word is handed out in some state of the generator: the tempering is a
  bijection of the 32-bit words, each of its four steps being undone by repeating it.
\<close>

lemma xor_linear_twice:
  fixes L :: "32 word \<Rightarrow> 32 word"
  assumes "\<And>a b. L (a XOR b) = L a XOR L b"
  shows "(z XOR L z) XOR L (z XOR L z) = z XOR L (L z)"
  by (simp add: assms xor.assoc)

lemma all_ones_32: "(z :: 32 word) AND 0xffffffff = z"
proof -
  have "(0xffffffff :: 32 word) = - 1" by simp
  then show ?thesis by (simp only: and.right_neutral)
qed

lemma temper_step1_inverse:
  fixes z :: "32 word"
  defines "t \<equiv> \<lambda>z :: 32 word. z XOR (drop_bit 11 z AND 0xffffffff)"
  shows "t (t (t (t z))) = z"
proof -
  have t: "t = (\<lambda>z. z XOR drop_bit 11 z)"
    by (simp add: t_def all_ones_32)
  have two: "t (t w) = w XOR drop_bit 22 w" for w
    unfolding t using xor_linear_twice [of "drop_bit 11" w] by (simp add: drop_bit_xor)
  have "t (t (t (t z))) = (z XOR drop_bit 22 z) XOR drop_bit 22 (z XOR drop_bit 22 z)"
    by (simp only: two)
  also have "\<dots> = z XOR drop_bit 22 (drop_bit 22 z)"
    using xor_linear_twice [of "drop_bit 22" z] by (simp add: drop_bit_xor)
  also have "\<dots> = z"
    by (simp add: drop_bit_word_beyond)
  finally show ?thesis .
qed

lemma temper_step4_inverse:
  fixes z :: "32 word"
  shows "(z XOR drop_bit 18 z) XOR drop_bit 18 (z XOR drop_bit 18 z) = z"
  using xor_linear_twice [of "drop_bit 18" z]
  by (simp add: drop_bit_xor drop_bit_word_beyond)

lemma temper_step3_inverse:
  fixes z :: "32 word"
  defines "L \<equiv> \<lambda>z :: 32 word. push_bit 15 z AND 0xefc60000"
  shows "(z XOR L z) XOR L (z XOR L z) = z"
proof -
  have lin: "L (a XOR b) = L a XOR L b" for a b
    by (simp add: L_def push_bit_xor bit.conj_xor_distrib2)
  have "L (L z) = 0"
    by (simp add: L_def push_bit_and and.assoc)
  with xor_linear_twice [of L z, OF lin] show ?thesis by simp
qed

lemma temper_step2_inverse:
  fixes z :: "32 word"
  defines "t \<equiv> \<lambda>z :: 32 word. z XOR (push_bit 7 z AND 0x9d2c5680)"
  shows "t (t (t (t (t (t (t (t z))))))) = z"
proof -
  define L1 where "L1 = (\<lambda>z :: 32 word. push_bit 7 z AND 0x9d2c5680)"
  define L2 where "L2 = (\<lambda>z. L1 (L1 z))"
  define L4 where "L4 = (\<lambda>z. L2 (L2 z))"
  have lin1: "L1 (a XOR b) = L1 a XOR L1 b" for a b
    by (simp add: L1_def push_bit_xor bit.conj_xor_distrib2)
  have lin2: "L2 (a XOR b) = L2 a XOR L2 b" for a b
    by (simp add: L2_def lin1)
  have lin4: "L4 (a XOR b) = L4 a XOR L4 b" for a b
    by (simp add: L4_def lin2)
  have t: "t = (\<lambda>z. z XOR L1 z)" by (simp add: t_def L1_def)
  have t2: "t (t w) = w XOR L2 w" for w
    unfolding t L2_def using xor_linear_twice [of L1 w, OF lin1] .
  have t4: "t (t (t (t w))) = w XOR L4 w" for w
    unfolding t2 L4_def using xor_linear_twice [of L2 w, OF lin2] .
  have "t (t (t (t (t (t (t (t z))))))) = z XOR L4 (L4 z)"
    unfolding t4 using xor_linear_twice [of L4 z, OF lin4] .
  moreover have "L4 (L4 z) = 0"
    by (simp add: L4_def L2_def L1_def push_bit_and and.assoc)
  ultimately show ?thesis by simp
qed

lemma mt_temper_surj: "\<exists>z. mt_temper z = v"
proof -
  define t1 where "t1 = (\<lambda>z :: 32 word. z XOR (drop_bit 11 z AND 0xffffffff))"
  define t2 where "t2 = (\<lambda>z :: 32 word. z XOR (push_bit 7 z AND 0x9d2c5680))"
  define t3 where "t3 = (\<lambda>z :: 32 word. z XOR (push_bit 15 z AND 0xefc60000))"
  define t4 where "t4 = (\<lambda>z :: 32 word. z XOR drop_bit 18 z)"
  have temper: "mt_temper z = t4 (t3 (t2 (t1 z)))" for z
    by (simp add: mt_temper_def Let_def t1_def t2_def t3_def t4_def)
  have i1: "t1 (t1 (t1 (t1 z))) = z" for z
    unfolding t1_def by (rule temper_step1_inverse)
  have i2: "t2 (t2 (t2 (t2 (t2 (t2 (t2 (t2 z))))))) = z" for z
    unfolding t2_def by (rule temper_step2_inverse)
  have i3: "t3 (t3 z) = z" for z
    unfolding t3_def by (rule temper_step3_inverse)
  have i4: "t4 (t4 z) = z" for z
    unfolding t4_def by (rule temper_step4_inverse)
  define z where "z = t1 (t1 (t1 (t2 (t2 (t2 (t2 (t2 (t2 (t2 (t3 (t4 v)))))))))))"
  have "mt_temper z = v"
    by (simp only: temper z_def i1 i2 i3 i4)
  then show ?thesis ..
qed

lemma mt_next_surj: "\<exists>g. mt_next g = (r, \<lparr>mt_x = mt_x g, mt_p = 1\<rparr>) \<and> mt_p g = 0 \<and> length (mt_x g) = 624"
proof -
  obtain z where z: "mt_temper z = r" using mt_temper_surj by blast
  have "mt_next \<lparr>mt_x = replicate 624 z, mt_p = 0\<rparr> = (r, \<lparr>mt_x = replicate 624 z, mt_p = 1\<rparr>)"
    by (simp add: mt_next_in_block z)
  then show ?thesis
    by (intro exI [of _ "\<lparr>mt_x = replicate 624 z, mt_p = 0\<rparr>"]) simp
qed

section \<open>Facts about the integer distribution for every integral type\<close>

lemma uniform_int_ret_le:
  assumes "uniform_int_ret g urange = Some y"
  shows "fst y \<le> urange"
proof (rule uniform_int_ret.raw_induct
    [where P = "\<lambda>g urange y. fst y \<le> urange", OF _ assms])
  fix f :: "mt19937 \<Rightarrow> 64 word \<Rightarrow> (64 word \<times> mt19937) option" and g urange y
  assume IH: "\<And>g urange y. f g urange = Some y \<Longrightarrow> fst y \<le> urange"
    and step: "(if urange < 0xffffffff then
        map_option (\<lambda>(ret, g). (ucast ret, g)) (S_nd g (ucast (urange + 1)))
      else if 0xffffffff < urange then
        Option.bind (f g (urange div 0x100000000))
          (\<lambda>(hi, g1).
             let tmp = 0x100000000 * hi;
                 (r, g2) = mt_next g1;
                 ret = tmp + ucast r
             in if urange < ret \<or> ret < tmp then f g2 urange else Some (ret, g2))
      else (let (r, g) = mt_next g in Some (ucast r, g))) = Some y"
  show "fst y \<le> urange"
  proof (cases "urange < 0xffffffff")
    case True
    then have small: "uint urange < 4294967295"
      by (simp add: word_less_def)
    from step True obtain ret g' where
      s: "S_nd g (ucast (urange + 1)) = Some (ret, g')" and y: "y = (ucast ret, g')"
      by auto
    from S_nd_at_most [OF s small] y show ?thesis
      by (simp add: word_le_def)
  next
    case False
    show ?thesis
    proof (cases "0xffffffff < urange")
      case True
      with False step obtain hi g1 where
        inner: "f g (urange div 0x100000000) = Some (hi, g1)" and
        rest: "(let tmp = 0x100000000 * hi;
                 (r, g2) = mt_next g1;
                 ret = tmp + ucast r
             in if urange < ret \<or> ret < tmp then f g2 urange else Some (ret, g2)) = Some y"
        by (auto simp add: bind_eq_Some_conv)
      obtain r g2 where n: "mt_next g1 = (r, g2)" by (cases "mt_next g1")
      show ?thesis
      proof (cases "urange < 0x100000000 * hi + ucast r \<or> 0x100000000 * hi + ucast r < 0x100000000 * hi")
        case True
        with rest n have "f g2 urange = Some y" by (simp add: Let_def)
        then show ?thesis by (rule IH)
      next
        case False
        with rest n have "y = (0x100000000 * hi + ucast r, g2)" by (simp add: Let_def)
        with False show ?thesis by auto
      qed
    next
      case up: False
      with False have u: "urange = 0xffffffff" by simp
      obtain r g2 where n: "mt_next g = (r, g2)" by (cases "mt_next g")
      with step False up have y: "y = (ucast r, g2)" by simp
      have "uint r < 2 ^ 32"
        using uint_bounded [of r] by simp
      moreover have "uint (ucast r :: 64 word) = uint r"
        by (rule uint_up_ucast) (simp add: is_up)
      ultimately show ?thesis
        by (simp add: y u word_le_def)
    qed
  qed
qed

lemma integral_width:
  assumes "is_integral T" and "T \<noteq> T_bool"
  shows "0 < int_width T \<and> int_width T \<le> 64"
  using assms by (cases T) simp_all

lemma int_range_width:
  assumes "0 < int_width T"
  shows "int_max T - int_min T = 2 ^ int_width T - 1"
proof -
  from assms have "(2 :: int) ^ int_width T = 2 * 2 ^ (int_width T - 1)"
    by (cases "int_width T") simp_all
  then show ?thesis
    by (simp add: int_max_def int_min_def)
qed

lemma uint_word_of_int_diff:
  assumes "0 \<le> b - a" and "b - a < 2 ^ 64"
  shows "uint (word_of_int b - word_of_int a :: 64 word) = b - a"
proof -
  from assms have "take_bit 64 (b - a) = b - a"
    by (simp only: take_bit_int_eq_self)
  moreover have "uint (word_of_int b - word_of_int a :: 64 word) = take_bit LENGTH(64) (b - a)"
    by (simp only: wi_hom_sub uint_word_of_int_eq)
  ultimately show ?thesis by simp
qed

lemma uint_plus_word_of_int:
  "uint (ret + word_of_int a :: 64 word) = take_bit 64 (uint ret + a)"
  by (simp add: uint_word_ariths uint_word_of_int_eq take_bit_eq_mod mod_simps)

lemma to_ctype_exact:
  assumes w: "0 < int_width T" "int_width T \<le> 64"
    and lo: "int_min T \<le> uint ret + a" and hi: "uint ret + a \<le> int_max T"
  shows "to_ctype T (ret + word_of_int a) = uint ret + a"
proof (cases "is_signed T")
  case True
  from w have "(2 :: int) ^ int_width T = 2 * 2 ^ (int_width T - 1)"
    by (cases "int_width T") simp_all
  with True lo hi have "- (2 ^ (int_width T - 1)) \<le> uint ret + a" "uint ret + a < 2 ^ (int_width T - 1)"
    by (simp_all add: int_min_def int_max_def)
  then have "signed_take_bit (int_width T - 1) (uint ret + a) = uint ret + a"
    by (simp only: signed_take_bit_int_eq_self)
  moreover from w have "\<not> 64 \<le> int_width T - 1" by simp
  ultimately show ?thesis
    using True by (simp add: to_ctype_def uint_plus_word_of_int signed_take_bit_take_bit)
next
  case False
  with lo hi have "0 \<le> uint ret + a" "uint ret + a < 2 ^ int_width T"
    by (simp_all add: int_min_def int_max_def)
  then have "take_bit (int_width T) (uint ret + a) = uint ret + a"
    by (simp only: take_bit_int_eq_self)
  moreover from w have "min (int_width T) 64 = int_width T" by simp
  ultimately show ?thesis
    using False by (simp add: to_ctype_def uint_plus_word_of_int take_bit_take_bit)
qed

lemma uniform_int_distribution_of_range:
  assumes "uniform_int_distribution_of T a b g = Some (v, g')"
  shows "a \<le> v \<and> v \<le> b"
proof -
  from assms have T: "is_integral T" "T \<noteq> T_bool"
    and lo: "int_min T \<le> a" and ab: "a \<le> b" and hi: "b \<le> int_max T"
    by (auto simp add: uniform_int_distribution_of_def split: if_splits)
  from integral_width [OF T] have w: "0 < int_width T" "int_width T \<le> 64" by simp_all
  from w(2) have "(2 :: int) ^ int_width T \<le> 2 ^ 64"
    by (intro power_increasing) simp_all
  with int_range_width [OF w(1)] lo hi have "b - a < 2 ^ 64" by linarith
  moreover from ab have "0 \<le> b - a" by simp
  ultimately have ur: "uint (word_of_int b - word_of_int a :: 64 word) = b - a"
    by (intro uint_word_of_int_diff)
  from assms T lo ab hi obtain ret where
    r: "uniform_int_ret g (word_of_int b - word_of_int a) = Some (ret, g')"
    and v: "v = to_ctype T (ret + word_of_int a)"
    by (auto simp add: uniform_int_distribution_of_def)
  from uniform_int_ret_le [OF r] ur have "uint ret \<le> b - a"
    by (simp add: word_le_def)
  moreover have "0 \<le> uint ret" by simp
  ultimately have "int_min T \<le> uint ret + a" "uint ret + a \<le> int_max T"
      "a \<le> uint ret + a" "uint ret + a \<le> b"
    using lo hi by linarith+
  with to_ctype_exact [OF w, of ret a] v show ?thesis by simp
qed

lemma to_ctype_T_int: "to_ctype T_int (ret + word_of_int a) = add_a ret a"
  by (simp add: to_ctype_def uint_plus_word_of_int signed_take_bit_take_bit add_a_signed_take_bit)

lemma uniform_int_distribution_of_T_int:
  "uniform_int_distribution_of T_int a b g = uniform_int_distribution_int a b g"
proof (cases "- (2 ^ 31) \<le> a \<and> a \<le> b \<and> b < 2 ^ 31")
  case False
  then show ?thesis
    by (auto simp add: uniform_int_distribution_of_def uniform_int_distribution_int_def
        int_min_def int_max_def)
next
  case True
  then have guard: "is_integral T_int \<and> T_int \<noteq> T_bool \<and> int_min T_int \<le> a \<and> a \<le> b \<and> b \<le> int_max T_int"
    by (simp add: int_min_def int_max_def)
  from True have up: "\<not> (0xffffffff :: 64 word) < word_of_int b - word_of_int a"
    by (intro upscaling_unreachable) simp_all
  have "uniform_int_distribution_of T_int a b g =
      map_option (\<lambda>(ret, g). (add_a ret a, g)) (uniform_int_ret g (word_of_int b - word_of_int a))"
    using guard by (simp add: uniform_int_distribution_of_def to_ctype_T_int)
  also have "\<dots> = uniform_int_distribution_int a b g"
    using True up
    by (subst uniform_int_ret.simps)
       (simp add: uniform_int_distribution_int_def Let_def option.map_comp comp_def
          case_prod_unfold split: prod.splits)
  finally show ?thesis .
qed

lemma libstdcxx_integral_T_int: "libstdcxx_integral T_int = libstdcxx_int"
  by (simp add: libstdcxx_integral_def libstdcxx_int_def uniform_int_distribution_of_T_int [abs_def])

text \<open>
  The draws that give the lowest and the highest value of the range.
\<close>

lemma two_draws:
  "\<exists>g g1 g2. mt_next g = (ra, g1) \<and> mt_next g1 = (rb, g2)"
proof -
  obtain za where za: "mt_temper za = ra" using mt_temper_surj by blast
  obtain zb where zb: "mt_temper zb = rb" using mt_temper_surj by blast
  define X where "X = za # zb # replicate 622 0"
  have "mt_next \<lparr>mt_x = X, mt_p = 0\<rparr> = (ra, \<lparr>mt_x = X, mt_p = Suc 0\<rparr>)"
    by (simp add: mt_next_in_block X_def za)
  moreover have "mt_next \<lparr>mt_x = X, mt_p = Suc 0\<rparr> = (rb, \<lparr>mt_x = X, mt_p = Suc (Suc 0)\<rparr>)"
    by (simp add: mt_next_in_block X_def zb)
  ultimately show ?thesis by blast
qed

lemma uerange_nonzero:
  fixes urange :: "64 word"
  assumes "urange < 0xffffffff"
  shows "unat (ucast (urange + 1) :: 32 word) = unat urange + 1"
proof -
  from assms have "uint urange < 4294967295"
    by (simp add: word_less_def)
  from uint_uerange [OF this] have "uint (ucast (urange + 1) :: 32 word) = uint urange + 1" .
  then have "nat (uint (ucast (urange + 1) :: 32 word)) = nat (uint urange + 1)" by simp
  then show ?thesis
    by (simp add: nat_add_distrib)
qed

lemma S_nd_first_accepted:
  assumes n: "mt_next g = (r, g1)"
    and acc: "\<not> (ucast (ucast r * ucast e :: 64 word) :: 32 word) < e \<or>
              \<not> (ucast (ucast r * ucast e :: 64 word) :: 32 word) < (- e) mod e"
  shows "S_nd g e = Some (ucast (drop_bit 32 (ucast r * ucast e :: 64 word)), g1)"
proof (cases "(ucast (ucast r * ucast e :: 64 word) :: 32 word) < e")
  case False
  with n show ?thesis by (simp add: S_nd_def Let_def)
next
  case True
  with acc have "\<not> (ucast (ucast r * ucast e :: 64 word) :: 32 word) < (- e) mod e" by simp
  then have "S_nd_loop g1 e ((- e) mod e) (ucast r * ucast e) = Some (ucast r * ucast e, g1)"
    by (subst S_nd_loop.simps) simp
  with n True show ?thesis by (simp add: S_nd_def Let_def)
qed

lemma S_nd_lowest:
  assumes n: "mt_next g = (1, g1)" and e: "e \<noteq> 0"
  shows "S_nd g e = Some (0, g1)"
proof -
  have u: "unat (ucast e :: 64 word) = unat e"
    by (rule unat_ucast_32_64)
  have low: "(ucast (ucast e :: 64 word) :: 32 word) = e"
    by (simp add: ucast_down_ucast_id is_down)
  have "unat e < 2 ^ 32"
    using unsigned_less [of e] by simp
  then have "drop_bit 32 (unat (ucast e :: 64 word)) = 0"
    by (simp add: drop_bit_eq_div u)
  then have "unat (drop_bit 32 (ucast e :: 64 word)) = 0"
    by (simp only: unat_drop_bit_eq)
  then have hi: "drop_bit 32 (ucast e :: 64 word) = 0"
    by (simp add: unat_eq_0)
  from S_nd_first_accepted [OF n, of e] low hi show ?thesis by simp
qed

lemma unat_neg_32:
  fixes e :: "32 word"
  assumes "e \<noteq> 0"
  shows "unat (- e) = 2 ^ 32 - unat e"
proof -
  have k: "0 < unat e" using assms by (simp add: unat_gt_0)
  have k2: "unat e < 2 ^ 32" using unsigned_less [of e] by simp
  have u2: "unat (- e) < 2 ^ 32" using unsigned_less [of "- e"] by simp
  have "unat (e + (- e)) = (unat e + unat (- e)) mod 2 ^ 32"
    by (simp only: unat_word_ariths) simp
  then have "(unat e + unat (- e)) mod 2 ^ 32 = 0" by simp
  then obtain q where q: "unat e + unat (- e) = 2 ^ 32 * q" by (auto simp: mod_eq_0_iff_dvd)
  have "q = 1"
  proof -
    have "2 ^ 32 * q < 2 ^ 32 * (2::nat)" using k2 u2 q by linarith
    then have "q < 2" by simp
    moreover have "0 < q" using k q by (cases q) simp_all
    ultimately show ?thesis by simp
  qed
  with q show ?thesis by simp
qed

lemma S_nd_highest:
  assumes n: "mt_next g = (0xffffffff, g1)" and e: "e \<noteq> 0"
  shows "S_nd g e = Some (e - 1, g1)"
proof -
  define k where "k = unat e"
  have k1: "1 \<le> k" using e by (simp add: k_def unat_gt_0 Suc_le_eq)
  have k2: "k < 2 ^ 32" using unsigned_less [of e] by (simp add: k_def)
  have r: "unat (0xffffffff :: 32 word) = 2 ^ 32 - 1" by simp
  have "(2 ^ 32 - 1) * k < 2 ^ 32 * 2 ^ 32"
    using k2 by (intro mult_strict_mono) simp_all
  then have small: "(2 ^ 32 - 1) * k < 2 ^ 64" by simp
  have prod: "unat (ucast (0xffffffff :: 32 word) * ucast e :: 64 word) = (2 ^ 32 - 1) * k"
    using small by (simp add: unat_word_ariths unat_ucast_32_64 k_def)
  have split: "(2 ^ 32 - 1) * k = 2 ^ 32 * (k - 1) + (2 ^ 32 - k)"
    using k1 k2 by (simp add: algebra_simps)
  have "(2 ^ 32 * (k - 1) + (2 ^ 32 - k)) mod 2 ^ 32 = (2 ^ 32 - k) mod (2 ^ 32 :: nat)"
    by (rule mod_mult_self4)
  moreover have "(2 ^ 32 - k) mod (2 ^ 32 :: nat) = 2 ^ 32 - k"
    using k1 by (intro mod_less) simp
  ultimately have "take_bit 32 ((2 ^ 32 - 1) * k) = 2 ^ 32 - k"
    by (simp only: split take_bit_eq_mod)
  then have low: "unat (ucast (ucast (0xffffffff :: 32 word) * ucast e :: 64 word) :: 32 word) = 2 ^ 32 - k"
    by (simp only: unsigned_ucast_eq prod) simp
  have "unat (- e) = 2 ^ 32 - k"
    unfolding k_def using e by (rule unat_neg_32)
  then have "unat ((- e) mod e) = (2 ^ 32 - k) mod k"
    by (simp add: unat_mod k_def)
  then have "unat ((- e) mod e) \<le> 2 ^ 32 - k"
    by simp
  with low have "\<not> (ucast (ucast (0xffffffff :: 32 word) * ucast e :: 64 word) :: 32 word) < (- e) mod e"
    by (simp only: word_less_nat_alt)
  from S_nd_first_accepted [OF n disjI2, OF this]
  have s: "S_nd g e = Some (ucast (drop_bit 32 (ucast (0xffffffff :: 32 word) * ucast e :: 64 word)), g1)" .
  have "(2 ^ 32 - 1) * k div 2 ^ 32 = k - 1"
    using k1 k2 by (intro div_nat_eqI) (simp_all add: algebra_simps)
  then have "unat (ucast (drop_bit 32 (ucast (0xffffffff :: 32 word) * ucast e :: 64 word)) :: 32 word) =
      unat (e - 1)"
    using unat_minus_one [OF e] by (simp only: unat_high_half r k_def)
  then have "(ucast (drop_bit 32 (ucast (0xffffffff :: 32 word) * ucast e :: 64 word)) :: 32 word) = e - 1"
    by (simp only: word_unat_eq_iff)
  with s show ?thesis by (simp only:)
qed

lemma uniform_int_ret_narrow_lowest:
  assumes u: "urange \<le> 0xffffffff"
  shows "\<exists>r. \<forall>g g1. mt_next g = (r, g1) \<longrightarrow> uniform_int_ret g urange = Some (0, g1)"
proof (cases "urange < 0xffffffff")
  case True
  from uerange_nonzero [OF True] have e: "(ucast (urange + 1) :: 32 word) \<noteq> 0"
    by (intro notI) simp
  have "uniform_int_ret g urange = Some (0, g1)" if "mt_next g = (1, g1)" for g g1
    using True S_nd_lowest [OF that e] by (subst uniform_int_ret.simps) simp
  then show ?thesis by blast
next
  case False
  with u have eq: "urange = 0xffffffff" by simp
  have "uniform_int_ret g urange = Some (0, g1)" if "mt_next g = (0, g1)" for g g1
    using that by (subst uniform_int_ret.simps) (simp add: eq)
  then show ?thesis by blast
qed

lemma uniform_int_ret_narrow_highest:
  assumes u: "urange \<le> 0xffffffff"
  shows "\<exists>r. \<forall>g g1. mt_next g = (r, g1) \<longrightarrow> uniform_int_ret g urange = Some (urange, g1)"
proof (cases "urange < 0xffffffff")
  case True
  define e :: "32 word" where "e = ucast (urange + 1)"
  from uerange_nonzero [OF True] have ue: "unat e = unat urange + 1"
    by (simp only: e_def)
  then have e: "e \<noteq> 0"
    by (intro notI) simp
  have "unat (ucast (e - 1) :: 64 word) = unat (e - 1)"
    by (rule unat_ucast_32_64)
  also have "\<dots> = unat urange"
    using unat_minus_one [OF e] ue by simp
  finally have bk: "(ucast (e - 1) :: 64 word) = urange"
    by (simp only: word_unat_eq_iff)
  have "uniform_int_ret g urange = Some (urange, g1)" if "mt_next g = (0xffffffff, g1)" for g g1
    using True S_nd_highest [OF that e] bk
    by (subst uniform_int_ret.simps) (simp add: e_def)
  then show ?thesis by blast
next
  case False
  with u have eq: "urange = 0xffffffff" by simp
  have "uniform_int_ret g urange = Some (urange, g1)" if "mt_next g = (0xffffffff, g1)" for g g1
    using that by (subst uniform_int_ret.simps) (simp add: eq)
  then show ?thesis by blast
qed

lemma high_word_narrow:
  fixes urange :: "64 word"
  shows "urange div 0x100000000 \<le> 0xffffffff"
proof -
  have "unat urange < 2 ^ 64" using unsigned_less [of urange] by simp
  then have "unat urange div 2 ^ 32 < 2 ^ 32"
    by (simp add: less_mult_imp_div_less)
  then have "unat (urange div 0x100000000) \<le> unat (0xffffffff :: 64 word)"
    by (simp add: unat_div)
  then show ?thesis by (simp only: word_le_nat_alt)
qed

lemma uniform_int_ret_lowest:
  "\<exists>g g'. uniform_int_ret g urange = Some (0, g')"
proof (cases "urange \<le> 0xffffffff")
  case True
  from uniform_int_ret_narrow_lowest [OF True] obtain r
    where r: "\<And>g g1. mt_next g = (r, g1) \<Longrightarrow> uniform_int_ret g urange = Some (0, g1)" by blast
  from mt_next_surj [of r] obtain g where "mt_next g = (r, \<lparr>mt_x = mt_x g, mt_p = 1\<rparr>)" by blast
  from r [OF this] show ?thesis by blast
next
  case False
  then have wide: "0xffffffff < urange" by simp
  from uniform_int_ret_narrow_lowest [OF high_word_narrow [of urange]] obtain r
    where r: "\<And>g g1. mt_next g = (r, g1) \<Longrightarrow> uniform_int_ret g (urange div 0x100000000) = Some (0, g1)"
    by blast
  from two_draws [of r 0] obtain g g1 g2
    where d1: "mt_next g = (r, g1)" and d2: "mt_next g1 = (0, g2)" by blast
  from wide have nn: "\<not> urange < 0xffffffff" by simp
  have "uniform_int_ret g urange = Some (0, g2)"
    using wide nn r [OF d1] d2 by (subst uniform_int_ret.simps) simp
  then show ?thesis by blast
qed

lemma split_halves:
  fixes urange :: "64 word"
  shows "0x100000000 * (urange div 0x100000000) + ucast (ucast urange :: 32 word) = urange"
    and "0x100000000 * (urange div 0x100000000) \<le> urange"
proof -
  define n where "n = unat urange"
  have n: "n < 2 ^ 64" using unsigned_less [of urange] by (simp add: n_def)
  have hi: "unat (urange div 0x100000000) = n div 2 ^ 32"
    by (simp add: unat_div n_def)
  have le: "2 ^ 32 * (n div 2 ^ 32) \<le> n" by simp
  then have "2 ^ 32 * (n div 2 ^ 32) < 2 ^ 64" using n by linarith
  then have "2 ^ 32 * (n div 2 ^ 32) mod 2 ^ 64 = 2 ^ 32 * (n div 2 ^ 32)"
    by (rule mod_less)
  moreover have "unat (0x100000000 :: 64 word) = 2 ^ 32" by simp
  ultimately have tmp: "unat (0x100000000 * (urange div 0x100000000)) = 2 ^ 32 * (n div 2 ^ 32)"
    by (simp only: unat_word_ariths(2) hi) simp
  have "unat (ucast (ucast urange :: 32 word) :: 64 word) = unat (ucast urange :: 32 word)"
    by (rule unat_ucast_32_64)
  also have "\<dots> = take_bit 32 (unat urange)"
    by (simp only: unsigned_ucast_eq) simp
  finally have lo: "unat (ucast (ucast urange :: 32 word) :: 64 word) = n mod 2 ^ 32"
    by (simp only: take_bit_eq_mod n_def)
  have "2 ^ 32 * (n div 2 ^ 32) + n mod 2 ^ 32 = n" by simp
  then have "unat (0x100000000 * (urange div 0x100000000) + ucast (ucast urange :: 32 word)) = n"
    using n by (simp only: unat_word_ariths(1) tmp lo) simp
  then show "0x100000000 * (urange div 0x100000000) + ucast (ucast urange :: 32 word) = urange"
    by (simp only: n_def word_unat_eq_iff)
  from le tmp show "0x100000000 * (urange div 0x100000000) \<le> urange"
    by (simp only: word_le_nat_alt n_def)
qed

lemma uniform_int_ret_highest:
  "\<exists>g g'. uniform_int_ret g urange = Some (urange, g')"
proof (cases "urange \<le> 0xffffffff")
  case True
  from uniform_int_ret_narrow_highest [OF True] obtain r
    where r: "\<And>g g1. mt_next g = (r, g1) \<Longrightarrow> uniform_int_ret g urange = Some (urange, g1)" by blast
  from mt_next_surj [of r] obtain g where "mt_next g = (r, \<lparr>mt_x = mt_x g, mt_p = 1\<rparr>)" by blast
  from r [OF this] show ?thesis by blast
next
  case False
  then have wide: "0xffffffff < urange" by simp
  from uniform_int_ret_narrow_highest [OF high_word_narrow [of urange]] obtain r
    where r: "\<And>g g1. mt_next g = (r, g1) \<Longrightarrow>
      uniform_int_ret g (urange div 0x100000000) = Some (urange div 0x100000000, g1)"
    by blast
  from two_draws [of r "ucast urange"] obtain g g1 g2
    where d1: "mt_next g = (r, g1)" and d2: "mt_next g1 = (ucast urange, g2)" by blast
  have nl: "\<not> urange < 0x100000000 * (urange div 0x100000000)"
    using split_halves(2) [of urange] by simp
  from wide have nn: "\<not> urange < 0xffffffff" by simp
  have "uniform_int_ret g urange = Some (urange, g2)"
    using wide nn r [OF d1] d2 nl
    by (subst uniform_int_ret.simps) (simp add: split_halves(1))
  then show ?thesis by blast
qed

lemma uniform_int_distribution_of_attains:
  assumes T: "is_integral T" "T \<noteq> T_bool"
    and lo: "int_min T \<le> a" and ab: "a \<le> b" and hi: "b \<le> int_max T"
  shows "\<exists>g g'. uniform_int_distribution_of T a b g = Some (a, g')"
    and "\<exists>g g'. uniform_int_distribution_of T a b g = Some (b, g')"
proof -
  from integral_width [OF T] have w: "0 < int_width T" "int_width T \<le> 64" by simp_all
  from w(2) have "(2 :: int) ^ int_width T \<le> 2 ^ 64"
    by (intro power_increasing) simp_all
  with int_range_width [OF w(1)] lo hi have "b - a < 2 ^ 64" by linarith
  moreover from ab have "0 \<le> b - a" by simp
  ultimately have ur: "uint (word_of_int b - word_of_int a :: 64 word) = b - a"
    by (intro uint_word_of_int_diff)
  have ok: "\<not> \<not> (is_integral T \<and> T \<noteq> T_bool \<and> int_min T \<le> a \<and> a \<le> b \<and> b \<le> int_max T)"
    using T lo ab hi by simp
  from lo ab hi have "int_min T \<le> uint (0 :: 64 word) + a" "uint (0 :: 64 word) + a \<le> int_max T"
    by simp_all
  from to_ctype_exact [OF w this] have ca: "to_ctype T (0 + word_of_int a) = a" by simp
  from lo ab hi ur have "int_min T \<le> uint (word_of_int b - word_of_int a :: 64 word) + a"
      "uint (word_of_int b - word_of_int a :: 64 word) + a \<le> int_max T"
    by simp_all
  from to_ctype_exact [OF w this] ur
  have cb: "to_ctype T ((word_of_int b - word_of_int a) + word_of_int a) = b" by simp
  from uniform_int_ret_lowest [of "word_of_int b - word_of_int a"] obtain g g'
    where "uniform_int_ret g (word_of_int b - word_of_int a) = Some (0, g')" by blast
  with ok ca have "uniform_int_distribution_of T a b g = Some (a, g')"
    by (simp only: uniform_int_distribution_of_def if_False option.map prod.case)
  then show "\<exists>g g'. uniform_int_distribution_of T a b g = Some (a, g')" by blast
  from uniform_int_ret_highest [of "word_of_int b - word_of_int a"] obtain h h'
    where "uniform_int_ret h (word_of_int b - word_of_int a) = Some (word_of_int b - word_of_int a, h')"
    by blast
  with ok cb have "uniform_int_distribution_of T a b h = Some (b, h')"
    by (simp only: uniform_int_distribution_of_def if_False option.map prod.case)
  then show "\<exists>g g'. uniform_int_distribution_of T a b g = Some (b, g')" by blast
qed

section \<open>Facts about rounding\<close>

text \<open>
  Rounding is monotone, exact on the values of the format, and a product with a factor
  below 1 does not round above the other factor; hence the canonical draw lies in
  \<open>[0, 1 - 2^-p]\<close> and a draw of the real distribution between its bounds.
\<close>

lemma rne_of_int [simp]: "rne (of_int k) = k"
  by (simp add: rne_def)

lemma rne_floor_cases: "rne z = \<lfloor>z\<rfloor> \<or> rne z = \<lfloor>z\<rfloor> + 1"
  by (simp add: rne_def Let_def)

lemma rne_mono:
  assumes "z \<le> z'"
  shows "rne z \<le> rne z'"
proof (cases "\<lfloor>z\<rfloor> < \<lfloor>z'\<rfloor>")
  case True
  with rne_floor_cases [of z] rne_floor_cases [of z'] show ?thesis by linarith
next
  case False
  with assms have eq: "\<lfloor>z\<rfloor> = \<lfloor>z'\<rfloor>"
    using floor_mono [of z z'] by linarith
  with assms have "z - of_int \<lfloor>z\<rfloor> \<le> z' - of_int \<lfloor>z'\<rfloor>" by simp
  with eq show ?thesis
    by (auto simp add: rne_def Let_def)
qed

lemma rne_below_half:
  assumes "of_int n \<le> z" and "z < of_int n + 1 / 2"
  shows "rne z = n"
proof -
  from assms have "\<lfloor>z\<rfloor> = n"
    by (intro floor_unique) linarith+
  with assms show ?thesis
    by (simp add: rne_def Let_def)
qed

lemma rne_greater:
  assumes "z < of_int (rne z)"
  shows "rne z = \<lfloor>z\<rfloor> + 1"
proof -
  have "of_int \<lfloor>z\<rfloor> \<le> z" by simp
  with assms have "rne z \<noteq> \<lfloor>z\<rfloor>" by linarith
  with rne_floor_cases [of z] show ?thesis by blast
qed

lemma rne_le_int: "z \<le> of_int k \<Longrightarrow> rne z \<le> k"
  using rne_mono [of z "of_int k"] by simp

lemma rne_ge_int: "of_int k \<le> z \<Longrightarrow> k \<le> rne z"
  using rne_mono [of "of_int k" z] by simp

lemma round_shift_upper:
  assumes "0 \<le> X"
  shows "X < 2 ^ (p + round_shift p X)"
proof -
  have "bitlen \<lfloor>X\<rfloor> \<le> int (p + round_shift p X)"
    by (simp add: round_shift_def)
  then have "\<lfloor>X\<rfloor> < 2 ^ (p + round_shift p X)"
    by (simp add: bitlen_le_iff_power nat_int_add)
  then have "\<lfloor>X\<rfloor> + 1 \<le> 2 ^ (p + round_shift p X)" by simp
  then have "(of_int (\<lfloor>X\<rfloor> + 1) :: rat) \<le> of_int (2 ^ (p + round_shift p X))"
    by (simp only: of_int_le_iff)
  moreover have "X < of_int (\<lfloor>X\<rfloor> + 1)"
    using floor_correct [of X] by blast
  ultimately show ?thesis by simp
qed

lemma round_shift_lower:
  assumes "0 < round_shift p X"
  shows "2 ^ (p + round_shift p X - 1) \<le> X"
proof -
  from assms have "int (p + round_shift p X) \<le> bitlen \<lfloor>X\<rfloor>"
    by (simp add: round_shift_def)
  then have "(2 :: int) ^ (nat (int (p + round_shift p X)) - 1) \<le> \<lfloor>X\<rfloor>"
    using assms by (simp only: bitlen_ge_iff_power) simp
  then have "(2 :: int) ^ (p + round_shift p X - 1) \<le> \<lfloor>X\<rfloor>"
    by (simp add: nat_int_add)
  then have "(of_int (2 ^ (p + round_shift p X - 1)) :: rat) \<le> of_int \<lfloor>X\<rfloor>"
    by (simp only: of_int_le_iff)
  moreover have "of_int \<lfloor>X\<rfloor> \<le> X"
    using floor_correct [of X] by blast
  ultimately have "(of_int (2 ^ (p + round_shift p X - 1)) :: rat) \<le> X"
    by (rule order_trans)
  then show ?thesis by simp
qed

lemma round_shift_mono:
  assumes "X \<le> Y"
  shows "round_shift p X \<le> round_shift p Y"
proof -
  from assms have "nat \<lfloor>X\<rfloor> \<le> nat \<lfloor>Y\<rfloor>"
    by (simp add: floor_mono nat_mono)
  then have "bitlen \<lfloor>X\<rfloor> \<le> bitlen \<lfloor>Y\<rfloor>"
    by (simp add: bitlen_def floorlog_mono)
  then show ?thesis by (simp add: round_shift_def)
qed

lemma round_shift_eq:
  assumes "2 ^ (p + j - 1) \<le> X" and "X < 2 ^ (p + j)" and "0 < p"
  shows "round_shift p X = j"
proof -
  have "(of_int (2 ^ (p + j - 1)) :: rat) \<le> X"
    using assms(1) by simp
  then have lo: "(2 :: int) ^ (p + j - 1) \<le> \<lfloor>X\<rfloor>"
    by (simp only: le_floor_iff)
  have "X < of_int (2 ^ (p + j))"
    using assms(2) by simp
  then have hi: "\<lfloor>X\<rfloor> < 2 ^ (p + j)"
    by (simp only: floor_less_iff)
  from hi have "bitlen \<lfloor>X\<rfloor> \<le> int (p + j)"
    by (simp add: bitlen_le_iff_power nat_int_add)
  moreover from lo have "int (p + j) \<le> bitlen \<lfloor>X\<rfloor>"
    by (simp add: bitlen_ge_iff_power nat_int_add)
  ultimately have "bitlen \<lfloor>X\<rfloor> = int (p + j)" by simp
  then show ?thesis by (simp add: round_shift_def)
qed

lemma round_shift_small:
  assumes "X < 2 ^ p"
  shows "round_shift p X = 0"
proof -
  have "X < of_int (2 ^ p)"
    using assms by simp
  then have "\<lfloor>X\<rfloor> < 2 ^ p"
    by (simp only: floor_less_iff)
  then have "bitlen \<lfloor>X\<rfloor> \<le> int p"
    by (simp add: bitlen_le_iff_power)
  then show ?thesis by (simp add: round_shift_def)
qed

lemma div_pow_less:
  fixes X :: rat
  assumes "X < 2 ^ (p + j)"
  shows "X / 2 ^ j < 2 ^ p"
proof -
  have "X < 2 ^ p * 2 ^ j"
    using assms by (simp add: power_add)
  then show ?thesis
    by (simp add: pos_divide_less_eq)
qed

lemma div_pow_ge:
  fixes X :: rat
  assumes "2 ^ (p + j - 1) \<le> X" and "0 < p"
  shows "2 ^ (p - 1) \<le> X / 2 ^ j"
proof -
  from assms(2) have "p + j - 1 = (p - 1) + j" by simp
  with assms(1) have "2 ^ (p - 1) * 2 ^ j \<le> X"
    by (simp add: power_add)
  then show ?thesis
    by (simp add: pos_le_divide_eq)
qed

lemma rnd_le_pow:
  assumes "0 \<le> X"
  shows "rnd p X \<le> 2 ^ (p + round_shift p X)"
proof -
  have "X / 2 ^ round_shift p X < 2 ^ p"
    using round_shift_upper [OF assms, of p] by (rule div_pow_less)
  then have "X / 2 ^ round_shift p X \<le> of_int (2 ^ p)" by simp
  then have "rne (X / 2 ^ round_shift p X) \<le> 2 ^ p"
    by (rule rne_le_int)
  then have "rne (X / 2 ^ round_shift p X) * 2 ^ round_shift p X \<le> 2 ^ p * 2 ^ round_shift p X"
    by (simp add: mult_right_mono)
  then show ?thesis
    by (simp add: rnd_def power_add)
qed

lemma rnd_ge_pow:
  assumes "0 < round_shift p X" and "0 < p"
  shows "2 ^ (p + round_shift p X - 1) \<le> rnd p X"
proof -
  have "2 ^ (p - 1) \<le> X / 2 ^ round_shift p X"
    using round_shift_lower [OF assms(1)] assms(2) by (rule div_pow_ge)
  then have "of_int (2 ^ (p - 1)) \<le> X / 2 ^ round_shift p X" by simp
  then have "2 ^ (p - 1) \<le> rne (X / 2 ^ round_shift p X)"
    by (rule rne_ge_int)
  then have "2 ^ (p - 1) * 2 ^ round_shift p X \<le> rne (X / 2 ^ round_shift p X) * 2 ^ round_shift p X"
    by (simp add: mult_right_mono)
  moreover from assms(2) have "p + round_shift p X - 1 = (p - 1) + round_shift p X" by simp
  ultimately show ?thesis
    by (simp add: rnd_def power_add)
qed

lemma rnd_mono:
  assumes "0 \<le> X" and "X \<le> Y" and "0 < p"
  shows "rnd p X \<le> rnd p Y"
proof (cases "round_shift p X = round_shift p Y")
  case True
  have "X / 2 ^ round_shift p Y \<le> Y / 2 ^ round_shift p Y"
    using assms(2) by (simp add: divide_right_mono)
  then have "rne (X / 2 ^ round_shift p Y) \<le> rne (Y / 2 ^ round_shift p Y)"
    by (rule rne_mono)
  then show ?thesis
    by (simp add: rnd_def True mult_right_mono)
next
  case False
  with round_shift_mono [OF assms(2), of p]
  have less: "round_shift p X < round_shift p Y" by simp
  then have "0 < round_shift p Y" by simp
  from rnd_ge_pow [OF this assms(3)]
  have "2 ^ (p + round_shift p Y - 1) \<le> rnd p Y" .
  moreover from less have "p + round_shift p X \<le> p + round_shift p Y - 1" by simp
  then have "(2 :: int) ^ (p + round_shift p X) \<le> 2 ^ (p + round_shift p Y - 1)"
    by simp
  moreover note rnd_le_pow [OF assms(1), of p]
  ultimately show ?thesis by linarith
qed

lemma rnd_exact:
  assumes "0 \<le> m" and "m < 2 ^ p"
  shows "rnd p (of_int (m * 2 ^ i)) = m * 2 ^ i"
proof -
  define j where "j = round_shift p (of_int (m * 2 ^ i))"
  have "m * 2 ^ i < 2 ^ p * 2 ^ i"
    using assms(2) by simp
  then have "m * 2 ^ i < 2 ^ (p + i)"
    by (simp add: power_add)
  then have "bitlen (m * 2 ^ i) \<le> int (p + i)"
    by (simp add: bitlen_le_iff_power nat_int_add)
  moreover have "\<lfloor>(of_int (m * 2 ^ i) :: rat)\<rfloor> = m * 2 ^ i"
    by (simp only: floor_of_int)
  ultimately have ji: "j \<le> i"
    unfolding j_def round_shift_def by simp
  then have "(2 :: rat) ^ i = 2 ^ (i - j) * 2 ^ j"
    by (simp add: power_add [symmetric])
  then have "(of_int (m * 2 ^ i) :: rat) / 2 ^ j = of_int (m * 2 ^ (i - j))"
    by simp
  then have "rne (of_int (m * 2 ^ i) / 2 ^ j) = m * 2 ^ (i - j)"
    by (simp only: rne_of_int)
  moreover from ji have "(2 :: int) ^ (i - j) * 2 ^ j = 2 ^ i"
    by (simp add: power_add [symmetric])
  ultimately show ?thesis
    unfolding rnd_def j_def [symmetric] by (simp add: mult.assoc)
qed

lemma rnd_nonneg:
  assumes "0 \<le> X"
  shows "0 \<le> rnd p X"
proof -
  have "0 \<le> X / 2 ^ round_shift p X"
    using assms by simp
  then have "of_int 0 \<le> X / 2 ^ round_shift p X" by simp
  then have "0 \<le> rne (X / 2 ^ round_shift p X)"
    by (rule rne_ge_int)
  then show ?thesis by (simp add: rnd_def)
qed

lemma rnd_idem:
  assumes "0 \<le> X" and "0 < p"
  shows "rnd p (of_int (rnd p X)) = rnd p X"
proof -
  define j where "j = round_shift p X"
  define m where "m = rne (X / 2 ^ j)"
  have r: "rnd p X = m * 2 ^ j"
    by (simp add: rnd_def j_def m_def)
  have m0: "0 \<le> m"
    unfolding m_def using assms(1) by (intro rne_ge_int) simp
  have "X / 2 ^ j < 2 ^ p"
    unfolding j_def using round_shift_upper [OF assms(1), of p] by (rule div_pow_less)
  then have "X / 2 ^ j \<le> of_int (2 ^ p)" by simp
  then have mp: "m \<le> 2 ^ p"
    unfolding m_def by (rule rne_le_int)
  show ?thesis
  proof (cases "m < 2 ^ p")
    case True
    from rnd_exact [OF m0 True, of j] r show ?thesis by simp
  next
    case False
    with mp have "m = 2 ^ p" by simp
    with assms(2) have "m * 2 ^ j = 2 ^ (p - 1) * 2 ^ Suc j"
      by (cases p) simp_all
    with r have e: "rnd p X = 2 ^ (p - 1) * 2 ^ Suc j"
      by (simp only:)
    have "rnd p (of_int (2 ^ (p - 1) * 2 ^ Suc j)) = 2 ^ (p - 1) * 2 ^ Suc j"
      using assms(2) by (intro rnd_exact) simp_all
    then show ?thesis
      by (simp only: e)
  qed
qed

lemma rnd_of_int_small:
  assumes "0 \<le> K" and "K < 2 ^ p"
  shows "rnd p (of_int K) = K"
  using rnd_exact [OF assms, of 0] by simp

lemma rnd_scaled_le:
  assumes K: "0 \<le> K" and r0: "0 \<le> r" and r1: "r \<le> 1 - 1 / 2 ^ p" and p: "0 < p"
  shows "rnd p (r * of_int (rnd p (of_int K))) \<le> K"
proof -
  define X :: rat where "X = of_int K"
  define j where "j = round_shift p X"
  define z where "z = X / 2 ^ j"
  define D where "D = rnd p X"
  have X0: "0 \<le> X" using K by (simp add: X_def)
  have D: "D = rne z * 2 ^ j"
    by (simp add: D_def rnd_def j_def z_def)
  have D0: "0 \<le> D"
    unfolding D_def using X0 by (rule rnd_nonneg)
  have r_le_1: "r \<le> 1"
  proof -
    have "(0 :: rat) \<le> 1 / 2 ^ p" by simp
    with r1 show ?thesis by linarith
  qed
  have Xz: "X = z * 2 ^ j"
    by (simp add: z_def)
  show ?thesis
  proof (cases "D \<le> K")
    case True
    have "r * of_int D \<le> 1 * of_int D"
      using r_le_1 D0 by (intro mult_right_mono) simp_all
    then have "r * of_int D \<le> of_int D" by simp
    moreover have "0 \<le> r * of_int D"
      using r0 D0 by simp
    ultimately have "rnd p (r * of_int D) \<le> rnd p (of_int D)"
      using p by (intro rnd_mono)
    also have "rnd p (of_int D) = D"
      unfolding D_def using X0 p by (rule rnd_idem)
    finally show ?thesis
      using True by (simp add: D_def X_def)
  next
    case False
    then have KD: "K < D" by simp
    have j0: "0 < j"
    proof (rule ccontr)
      assume "\<not> 0 < j"
      then have "j = 0" by simp
      then have "D = K" by (simp add: D z_def X_def)
      with KD show False by simp
    qed
    have "of_int K < (of_int D :: rat)"
      using KD by (simp only: of_int_less_iff)
    then have "z * 2 ^ j < of_int (rne z) * 2 ^ j"
      by (simp add: D Xz [symmetric] X_def)
    then have "z < of_int (rne z)"
      by simp
    then have up: "rne z = \<lfloor>z\<rfloor> + 1"
      by (rule rne_greater)
    define n where "n = \<lfloor>z\<rfloor>"
    have nz: "of_int n \<le> z"
      unfolding n_def using floor_correct [of z] by blast
    have "2 ^ (p - 1) \<le> z"
      unfolding z_def using round_shift_lower [OF j0 [unfolded j_def]] p
      by (simp only: j_def [symmetric]) (rule div_pow_ge)
    then have "of_int (2 ^ (p - 1)) \<le> z" by simp
    then have n_lo: "2 ^ (p - 1) \<le> n"
      unfolding n_def by (simp only: le_floor_iff)
    have "z < 2 ^ p"
      unfolding z_def j_def using round_shift_upper [OF X0, of p] by (rule div_pow_less)
    with nz have "of_int n < (2 :: rat) ^ p"
      by (rule le_less_trans)
    then have "of_int n < (of_int (2 ^ p) :: rat)" by simp
    then have n_hi: "n < 2 ^ p"
      by (simp only: of_int_less_iff)
    have "(of_int (2 ^ (p - 1)) :: rat) \<le> of_int n"
      using n_lo by (simp only: of_int_le_iff)
    then have n_lo_rat: "(2 :: rat) ^ (p - 1) \<le> of_int n"
      by (simp only: of_int_power of_int_numeral)
    from n_lo have n0: "0 \<le> n"
      by (meson order_trans zero_le_numeral zero_le_power)
    have "of_int n * 2 ^ j \<le> z * (2 :: rat) ^ j"
      using nz by (intro mult_right_mono) simp_all
    then have "(of_int (n * 2 ^ j) :: rat) \<le> of_int K"
      by (simp add: Xz [symmetric] X_def)
    then have nK: "n * 2 ^ j \<le> K"
      by (simp only: of_int_le_iff)
    have DD: "(of_int D :: rat) = (of_int n + 1) * 2 ^ j"
      by (simp add: D up n_def)
    define Y where "Y = r * of_int D"
    have Y0: "0 \<le> Y"
      unfolding Y_def using r0 D0 by simp
    have half: "(1 :: rat) / 2 < (of_int n + 1) / 2 ^ p"
    proof -
      have "(2 :: rat) ^ p = 2 * 2 ^ (p - 1)"
        using p by (cases p) simp_all
      moreover have "(2 :: rat) ^ (p - 1) < of_int n + 1"
        using n_lo_rat by linarith
      ultimately have "(2 :: rat) ^ p < 2 * (of_int n + 1)" by simp
      then show ?thesis
        by (simp add: field_simps)
    qed
    have "r * (of_int n + 1) \<le> (1 - 1 / 2 ^ p) * (of_int n + 1)"
      using r1 n0 by (intro mult_right_mono) simp_all
    also have "\<dots> = of_int n + 1 - (of_int n + 1) / 2 ^ p"
      by (simp add: field_simps)
    also have "\<dots> < of_int n + 1 / 2"
      using half by linarith
    finally have "r * (of_int n + 1) < of_int n + 1 / 2" .
    then have "r * (of_int n + 1) * 2 ^ j < (of_int n + 1 / 2) * 2 ^ j"
      by simp
    then have Y_hi: "Y < (of_int n + 1 / 2) * 2 ^ j"
      by (simp add: Y_def DD mult.assoc)
    show ?thesis
    proof (cases "Y \<le> of_int (n * 2 ^ j)")
      case True
      with Y0 p have "rnd p Y \<le> rnd p (of_int (n * 2 ^ j))"
        by (intro rnd_mono)
      also have "\<dots> = n * 2 ^ j"
        using n0 n_hi by (rule rnd_exact)
      finally show ?thesis
        using nK by (simp add: Y_def D_def X_def)
    next
      case False
      then have Y_lo: "of_int n * 2 ^ j < Y" by simp
      have "(2 :: rat) ^ (p + j - 1) = 2 ^ (p - 1) * 2 ^ j"
        using p by (cases p) (simp_all add: power_add)
      also have "\<dots> \<le> of_int n * 2 ^ j"
        using n_lo_rat by (intro mult_right_mono) simp_all
      finally have lo: "2 ^ (p + j - 1) \<le> Y"
        using Y_lo by linarith
      have "(of_int n + 1 / 2) * (2 :: rat) ^ j \<le> 2 ^ p * 2 ^ j"
      proof -
        have "n + 1 \<le> 2 ^ p" using n_hi by simp
        then have "(of_int (n + 1) :: rat) \<le> of_int (2 ^ p)"
          by (simp only: of_int_le_iff)
        then have "(of_int n :: rat) + 1 \<le> 2 ^ p"
          by (simp only: of_int_add of_int_1 of_int_power of_int_numeral)
        then have "(of_int n :: rat) + 1 / 2 \<le> 2 ^ p" by linarith
        then show ?thesis
          by (intro mult_right_mono) simp_all
      qed
      with Y_hi have "Y < 2 ^ p * 2 ^ j"
        by (rule less_le_trans)
      then have hi: "Y < 2 ^ (p + j)"
        by (simp only: power_add)
      have sh: "round_shift p Y = j"
        using lo hi p by (rule round_shift_eq)
      have "of_int n \<le> Y / 2 ^ j"
        using Y_lo by (simp add: pos_le_divide_eq)
      moreover have "Y / 2 ^ j < of_int n + 1 / 2"
        using Y_hi by (simp add: pos_divide_less_eq)
      ultimately have "rne (Y / 2 ^ j) = n"
        by (rule rne_below_half)
      then have "rnd p Y = n * 2 ^ j"
        by (simp add: rnd_def sh)
      with nK show ?thesis
        by (simp add: Y_def D_def X_def)
    qed
  qed
qed

lemma units_pos: "0 < units f"
  by (simp add: units_def)

lemma round_magnitude_mono:
  assumes "0 \<le> x" and "x \<le> y" and "0 < precision f"
  shows "round_magnitude f x \<le> round_magnitude f y"
proof -
  have "0 \<le> x * units f"
    using assms(1) units_pos [of f] by simp
  moreover have "x * units f \<le> y * units f"
    using assms(2) units_pos [of f] by simp
  ultimately have "rnd (precision f) (x * units f) \<le> rnd (precision f) (y * units f)"
    using assms(3) by (rule rnd_mono)
  then have "(of_int (rnd (precision f) (x * units f)) :: rat) \<le>
      of_int (rnd (precision f) (y * units f))"
    by (simp only: of_int_le_iff)
  then show ?thesis
    unfolding round_magnitude_def using units_pos [of f] by (simp add: divide_right_mono)
qed

lemma round_magnitude_nonneg:
  assumes "0 \<le> x"
  shows "0 \<le> round_magnitude f x"
proof -
  have "0 \<le> x * units f"
    using assms units_pos [of f] by simp
  then have "0 \<le> rnd (precision f) (x * units f)"
    by (rule rnd_nonneg)
  then show ?thesis
    unfolding round_magnitude_def using units_pos [of f] by simp
qed

lemma round_magnitude_zero [simp]: "round_magnitude f 0 = 0"
  using rne_of_int [of 0] by (simp add: round_magnitude_def rnd_def)

lemma round_magnitude_units:
  "round_magnitude f x * units f = of_int (rnd (precision f) (x * units f))"
  using units_pos [of f] by (simp add: round_magnitude_def)

lemma round_magnitude_idem:
  assumes "0 \<le> x" and "0 < precision f"
  shows "round_magnitude f (round_magnitude f x) = round_magnitude f x"
proof -
  have "0 \<le> x * units f"
    using assms(1) units_pos [of f] by simp
  from rnd_idem [OF this assms(2)] show ?thesis
    by (simp add: round_magnitude_def [of f "round_magnitude f x"] round_magnitude_units)
       (simp add: round_magnitude_def)
qed

lemma fl_zero [simp]: "fl f 0 = Finite 0"
proof -
  have "(0 :: rat) \<le> fmax f"
    by (simp add: fmax_def)
  then show ?thesis by (simp add: fl_def)
qed

lemma fl_nonneg_cases:
  assumes "0 \<le> x"
  shows "fl f x = (if fmax f < round_magnitude f x then PInf else Finite (round_magnitude f x))"
  using assms by (simp add: fl_def Let_def)

lemma fl_neg_cases:
  assumes "x < 0"
  shows "fl f x = (if fmax f < round_magnitude f (- x) then NInf else Finite (- round_magnitude f (- x)))"
  using assms by (simp add: fl_def Let_def)

lemma fl_mono:
  assumes "x \<le> y" and p: "0 < precision f"
  shows "fp_le (fl f x) (fl f y)"
proof -
  consider (pos) "0 \<le> x" | (neg) "y < 0" | (mixed) "x < 0" "0 \<le> y"
    by linarith
  then show ?thesis
  proof cases
    case pos
    with assms(1) have y: "0 \<le> y" by simp
    from round_magnitude_mono [OF pos assms(1) p]
    show ?thesis
      by (auto simp add: fl_nonneg_cases [OF pos] fl_nonneg_cases [OF y])
  next
    case neg
    with assms(1) have x: "x < 0" by simp
    have "0 \<le> - y" "- y \<le> - x"
      using neg assms(1) by simp_all
    from round_magnitude_mono [OF this p]
    show ?thesis
      by (auto simp add: fl_neg_cases [OF x] fl_neg_cases [OF neg])
  next
    case mixed
    have "0 \<le> round_magnitude f (- x)"
      using mixed(1) by (intro round_magnitude_nonneg) simp
    moreover have "0 \<le> round_magnitude f y"
      using mixed(2) by (rule round_magnitude_nonneg)
    ultimately show ?thesis
      by (auto simp add: fl_neg_cases [OF mixed(1)] fl_nonneg_cases [OF mixed(2)])
  qed
qed

lemma fl_closed:
  assumes "fl f x = Finite y" and p: "0 < precision f"
  shows "fl f y = Finite y"
proof (cases "0 \<le> x")
  case True
  with assms(1) have y: "y = round_magnitude f x" and m: "\<not> fmax f < round_magnitude f x"
    by (auto simp add: fl_nonneg_cases split: if_splits)
  have y0: "0 \<le> y"
    unfolding y using True by (rule round_magnitude_nonneg)
  have "round_magnitude f y = y"
    unfolding y using True p by (rule round_magnitude_idem)
  with m y y0 show ?thesis
    by (simp add: fl_nonneg_cases)
next
  case False
  then have x: "x < 0" by simp
  with assms(1) have y: "y = - round_magnitude f (- x)"
    and m: "\<not> fmax f < round_magnitude f (- x)"
    by (auto simp add: fl_neg_cases split: if_splits)
  have r0: "0 \<le> round_magnitude f (- x)"
    using x by (intro round_magnitude_nonneg) simp
  have idem: "round_magnitude f (round_magnitude f (- x)) = round_magnitude f (- x)"
    using x p by (intro round_magnitude_idem) simp_all
  show ?thesis
  proof (cases "y < 0")
    case True
    with y m idem show ?thesis
      by (simp add: fl_neg_cases)
  next
    case False
    with y r0 have "y = 0" by simp
    then show ?thesis by simp
  qed
qed

lemma representable_units:
  assumes "fl f a = Finite a"
  shows "\<exists>K. a * units f = of_int K"
proof (cases "0 \<le> a")
  case True
  define m where "m = round_magnitude f a"
  from True assms have "a = m"
    by (auto simp add: m_def fl_nonneg_cases split: if_splits)
  then have "a * units f = m * units f" by simp
  then have "a * units f = of_int (rnd (precision f) (a * units f))"
    unfolding m_def by (simp only: round_magnitude_units)
  then show ?thesis by blast
next
  case False
  then have a: "a < 0" by simp
  define m where "m = round_magnitude f (- a)"
  from a assms have "a = - m"
    by (auto simp add: m_def fl_neg_cases split: if_splits)
  then have "a * units f = - (m * units f)" by simp
  then have "a * units f = of_int (- rnd (precision f) (- a * units f))"
    unfolding m_def by (simp only: round_magnitude_units of_int_minus)
  then show ?thesis by blast
qed

lemma fp_le_Finite_between:
  assumes "fp_le (Finite a) v" and "fp_le v (Finite b)"
  shows "\<exists>w. v = Finite w \<and> a \<le> w \<and> w \<le> b"
  using assms by (cases v) simp_all

lemma uniform_real_range_core:
  assumes p: "0 < precision f"
    and ra: "fl f a = Finite a" and rb: "fl f b = Finite b" and ab: "a \<le> b"
    and q0: "0 \<le> q" and q1: "q \<le> 1 - 1 / 2 ^ precision f"
    and d: "fp_sub f (Finite b) (Finite a) = Finite d"
  shows "\<exists>v. fp_add f (fp_mul f (Finite q) (fp_sub f (Finite b) (Finite a))) (Finite a) = Finite v \<and>
           a \<le> v \<and> v \<le> b"
proof -
  define x where "x = b - a"
  have x0: "0 \<le> x" using ab by (simp add: x_def)
  from d have flx: "fl f x = Finite d"
    by (simp add: fp_sub_def x_def)
  with x0 have dx: "d = round_magnitude f x" and dmax: "\<not> fmax f < d"
    by (auto simp add: fl_nonneg_cases split: if_splits)
  have d0: "0 \<le> d"
    unfolding dx using x0 by (rule round_magnitude_nonneg)
  obtain Ka Kb where Ka: "a * units f = of_int Ka" and Kb: "b * units f = of_int Kb"
    using representable_units [OF ra] representable_units [OF rb] by blast
  define K where "K = Kb - Ka"
  have xK: "x * units f = of_int K"
    by (simp add: x_def K_def Ka [symmetric] Kb [symmetric] algebra_simps)
  have "0 \<le> x * units f"
    using x0 units_pos [of f] by simp
  then have "(of_int 0 :: rat) \<le> of_int K"
    by (simp add: xK)
  then have K0: "0 \<le> K"
    by (simp only: of_int_le_iff)
  have dU: "d * units f = of_int (rnd (precision f) (of_int K))"
    unfolding dx by (simp only: round_magnitude_units xK)
  have qd0: "0 \<le> q * d" using q0 d0 by simp
  have q_le_1: "q \<le> 1"
  proof -
    have "(0 :: rat) \<le> 1 / 2 ^ precision f" by simp
    with q1 show ?thesis by linarith
  qed
  have qd_le: "q * d \<le> d"
    using mult_right_mono [OF q_le_1 d0] by simp
  define s where "s = round_magnitude f (q * d)"
  have s0: "0 \<le> s"
    unfolding s_def using qd0 by (rule round_magnitude_nonneg)
  have "s \<le> round_magnitude f d"
    unfolding s_def using qd0 qd_le p by (rule round_magnitude_mono)
  also have "round_magnitude f d = d"
    unfolding dx using x0 p by (rule round_magnitude_idem)
  finally have s_le_d: "s \<le> d" .
  with dmax have smax: "\<not> fmax f < s" by simp
  have "s * units f = of_int (rnd (precision f) (q * d * units f))"
    unfolding s_def by (rule round_magnitude_units)
  also have "q * d * units f = q * of_int (rnd (precision f) (of_int K))"
    by (simp only: dU [symmetric] mult.assoc)
  also have "(of_int (rnd (precision f) (q * of_int (rnd (precision f) (of_int K)))) :: rat) \<le> of_int K"
    using rnd_scaled_le [OF K0 q0 q1 p] by (simp only: of_int_le_iff)
  finally have "s * units f \<le> x * units f"
    by (simp only: xK)
  then have s_le_x: "s \<le> x"
    using units_pos [of f] by simp
  have mul: "fp_mul f (Finite q) (fp_sub f (Finite b) (Finite a)) = Finite s"
    using qd0 smax by (simp add: d fl_nonneg_cases s_def)
  have "fp_le (fl f a) (fl f (s + a))"
    using s0 p by (intro fl_mono) simp_all
  moreover have "fp_le (fl f (s + a)) (fl f b)"
    using s_le_x p by (intro fl_mono) (simp_all add: x_def)
  ultimately obtain v where "fl f (s + a) = Finite v" "a \<le> v" "v \<le> b"
    using fp_le_Finite_between [of a "fl f (s + a)" b] by (auto simp add: ra rb)
  then show ?thesis
    by (simp add: mul)
qed

lemma rnd_fixed_below_pow:
  assumes fx: "rnd p (of_int N) = N" and N0: "0 \<le> N" and NE: "N < 2 ^ E"
    and pE: "p \<le> E" and p: "0 < p"
  shows "N \<le> 2 ^ E - 2 ^ (E - p)"
proof (cases "N < 2 ^ (E - 1)")
  case True
  from p pE have "E - p \<le> E - 1" by simp
  then have "(2 :: int) ^ (E - p) \<le> 2 ^ (E - 1)"
    by simp
  moreover from p pE have "(2 :: int) ^ E = 2 * 2 ^ (E - 1)"
    by (cases E) simp_all
  ultimately show ?thesis using True by linarith
next
  case False
  then have lo: "(2 :: int) ^ (E - 1) \<le> N" by simp
  from pE have e: "p + (E - p) = E" by simp
  have "(of_int (2 ^ (E - 1)) :: rat) \<le> of_int N"
    using lo by (simp only: of_int_le_iff)
  then have lo': "(2 :: rat) ^ (p + (E - p) - 1) \<le> of_int N"
    by (simp only: e of_int_power of_int_numeral)
  have "(of_int N :: rat) < of_int (2 ^ E)"
    using NE by (simp only: of_int_less_iff)
  then have hi': "(of_int N :: rat) < 2 ^ (p + (E - p))"
    by (simp only: e of_int_power of_int_numeral)
  have sh: "round_shift p (of_int N) = E - p"
    using lo' hi' p by (rule round_shift_eq)
  define k where "k = rne (of_int N / 2 ^ (E - p))"
  have N: "N = k * 2 ^ (E - p)"
    using fx by (simp add: rnd_def sh k_def)
  have "(2 :: int) ^ E = 2 ^ p * 2 ^ (E - p)"
    using pE by (simp add: power_add [symmetric])
  with NE N have "k * 2 ^ (E - p) < 2 ^ p * 2 ^ (E - p)" by simp
  then have "k < 2 ^ p" by simp
  then have "k \<le> 2 ^ p - 1" by simp
  then have "k * 2 ^ (E - p) \<le> (2 ^ p - 1) * 2 ^ (E - p)"
    by (intro mult_right_mono) simp_all
  also have "\<dots> = 2 ^ E - 2 ^ (E - p)"
    using pE by (simp add: algebra_simps power_add [symmetric])
  finally show ?thesis using N by simp
qed

lemma fl_below_one:
  assumes v: "valid_format f" and rt: "fl f t = Finite t" and t0: "0 \<le> t" and t1: "t < 1"
  shows "t \<le> 1 - 1 / 2 ^ precision f"
proof -
  define p where "p = precision f"
  define E where "E = emax f + precision f - 2"
  from v have p: "0 < p" and pE: "p \<le> E"
    by (auto simp add: valid_format_def p_def E_def)
  have U: "units f = 2 ^ E"
    by (simp add: units_def E_def)
  from rt t0 have "t = round_magnitude f t"
    by (auto simp add: fl_nonneg_cases split: if_splits)
  define N where "N = rnd p (t * units f)"
  have tN: "t * units f = of_int N"
  proof -
    define m where "m = round_magnitude f t"
    have "t = m" using \<open>t = round_magnitude f t\<close> by (simp add: m_def)
    then have "t * units f = m * units f" by simp
    then show ?thesis
      unfolding m_def N_def p_def by (simp only: round_magnitude_units)
  qed
  have fx: "rnd p (of_int N) = N"
    by (simp add: N_def [symmetric] tN [symmetric])
  have "0 \<le> t * units f"
    using t0 units_pos [of f] by simp
  then have "(of_int 0 :: rat) \<le> of_int N" by (simp add: tN)
  then have N0: "0 \<le> N" by (simp only: of_int_le_iff)
  have "t * units f < 1 * units f"
    using t1 units_pos [of f] by (intro mult_strict_right_mono)
  then have "of_int N < 1 * units f"
    by (simp only: tN)
  then have "(of_int N :: rat) < of_int (2 ^ E)"
    by (simp add: U)
  then have NE: "N < 2 ^ E" by (simp only: of_int_less_iff)
  from rnd_fixed_below_pow [OF fx N0 NE pE p]
  have "(of_int N :: rat) \<le> of_int (2 ^ E - 2 ^ (E - p))"
    by (simp only: of_int_le_iff)
  then have "t * units f \<le> of_int (2 ^ E - 2 ^ (E - p))"
    by (simp only: tN)
  then have "t * 2 ^ E \<le> 2 ^ E - 2 ^ (E - p)"
    by (simp add: U)
  moreover have "(2 :: rat) ^ E = 2 ^ p * 2 ^ (E - p)"
    using pE by (simp add: power_add [symmetric])
  ultimately have "t * (2 ^ p * 2 ^ (E - p)) \<le> (2 ^ p - 1) * 2 ^ (E - p)"
    by (simp add: algebra_simps)
  then have "t * 2 ^ p * 2 ^ (E - p) \<le> (2 ^ p - 1) * 2 ^ (E - p)"
    by (simp only: mult.assoc)
  then have "t * 2 ^ p \<le> 2 ^ p - 1"
    by simp
  then show ?thesis
    by (simp add: p_def field_simps)
qed

lemma fl_pow2:
  assumes v: "valid_format f" and n: "n \<le> emax f"
  shows "fl f (2 ^ n) = Finite (2 ^ n)"
proof -
  define p where "p = precision f"
  from v have p: "0 < p" and pe: "p \<le> emax f + 1" and e: "2 \<le> emax f"
    by (auto simp add: valid_format_def p_def)
  have U: "units f = 2 ^ (emax f + p - 2)"
    by (simp add: units_def p_def)
  have "(p - 1) + (n + emax f - 1) = n + (emax f + p - 2)"
    using p e by simp
  then have "(2 :: rat) ^ n * 2 ^ (emax f + p - 2) = 2 ^ (p - 1) * 2 ^ (n + emax f - 1)"
    by (simp only: power_add [symmetric])
  then have "(2 :: rat) ^ n * units f = of_int (2 ^ (p - 1) * 2 ^ (n + emax f - 1))"
    by (simp add: U)
  moreover have "rnd p (of_int (2 ^ (p - 1) * 2 ^ (n + emax f - 1))) = 2 ^ (p - 1) * 2 ^ (n + emax f - 1)"
    using p by (intro rnd_exact) simp_all
  ultimately have "of_int (rnd p (2 ^ n * units f)) = 2 ^ n * units f"
    by (simp only:)
  then have rm: "round_magnitude f (2 ^ n) = 2 ^ n"
    using units_pos [of f] by (simp add: round_magnitude_def p_def)
  have "(2 :: rat) ^ n \<le> 2 ^ emax f"
    using n by simp
  also have "(2 :: rat) ^ emax f = 2 ^ (p - 1) * 2 ^ (emax f + 1 - p)"
  proof -
    have "(p - 1) + (emax f + 1 - p) = emax f" using p pe by simp
    then show ?thesis by (simp only: power_add [symmetric])
  qed
  also have "\<dots> \<le> (2 ^ p - 1) * 2 ^ (emax f + 1 - p)"
  proof -
    have "(2 :: rat) ^ p = 2 * 2 ^ (p - 1)"
      using p by (cases p) simp_all
    moreover have "(1 :: rat) \<le> 2 ^ (p - 1)" by simp
    ultimately have "(2 :: rat) ^ (p - 1) \<le> 2 ^ p - 1" by linarith
    then show ?thesis by (intro mult_right_mono) simp_all
  qed
  finally have "(2 :: rat) ^ n \<le> fmax f"
    by (simp add: fmax_def p_def)
  with rm show ?thesis
    by (simp add: fl_nonneg_cases)
qed

lemma fl_between:
  assumes v: "valid_format f" and x0: "0 \<le> x" and xn: "x \<le> 2 ^ n" and n: "n \<le> emax f"
  shows "\<exists>w. fl f x = Finite w \<and> 0 \<le> w \<and> w \<le> 2 ^ n"
proof -
  from v have p: "0 < precision f" by (simp add: valid_format_def)
  have "fp_le (fl f 0) (fl f x)"
    using x0 p by (rule fl_mono)
  moreover have "fp_le (fl f x) (fl f (2 ^ n))"
    using xn p by (rule fl_mono)
  ultimately show ?thesis
    using fp_le_Finite_between [of 0 "fl f x" "2 ^ n"]
    by (simp add: fl_pow2 [OF v n])
qed

lemma canonical_sum_invariant:
  assumes v: "valid_format f"
  shows "0 \<le> s \<Longrightarrow> s \<le> 2 ^ (32 * i + 1) \<Longrightarrow> 32 * (i + k) + 1 \<le> emax f \<Longrightarrow>
     \<exists>s' g'. canonical_sum f k (Finite s) (Finite (2 ^ (32 * i))) g =
               (Finite s', Finite (2 ^ (32 * (i + k))), g') \<and>
             0 \<le> s' \<and> s' \<le> 2 ^ (32 * (i + k) + 1)"
proof (induction k arbitrary: s i g)
  case 0
  then show ?case by simp
next
  case (Suc k)
  obtain u g1 where nx: "mt_next g = (u, g1)" by (cases "mt_next g")
  have "uint u < 2 ^ 32"
    using uint_bounded [of u] by simp
  then have "(of_int (uint u) :: rat) < of_int (2 ^ 32)"
    by (simp only: of_int_less_iff)
  then have "(of_int (uint u) :: rat) \<le> 2 ^ 32" by simp
  moreover have "(0 :: rat) \<le> of_int (uint u)"
  proof -
    have "0 \<le> uint u" by simp
    then have "(of_int 0 :: rat) \<le> of_int (uint u)"
      by (simp only: of_int_le_iff)
    then show ?thesis by (simp only: of_int_0)
  qed
  moreover have "32 \<le> emax f" using Suc.prems(3) by simp
  ultimately obtain v1 where v1: "fp_of_int f (uint u) = Finite v1" "0 \<le> v1" "v1 \<le> 2 ^ 32"
    unfolding fp_of_int_def using fl_between [OF v, of "of_int (uint u)" 32] by blast
  have ex: "(2 :: rat) ^ (32 * (i + 1)) = 2 ^ 32 * 2 ^ (32 * i)"
  proof -
    have "32 * (i + 1) = 32 + 32 * i" by simp
    then show ?thesis by (simp only: power_add)
  qed
  have "v1 * 2 ^ (32 * i) \<le> 2 ^ 32 * 2 ^ (32 * i)"
    using v1(3) by (intro mult_right_mono) simp_all
  then have "v1 * 2 ^ (32 * i) \<le> 2 ^ (32 * (i + 1))"
    by (simp only: ex)
  moreover have "0 \<le> v1 * 2 ^ (32 * i)" using v1(2) by simp
  moreover have "32 * (i + 1) \<le> emax f" using Suc.prems(3) by simp
  ultimately obtain v2 where v2: "fp_mul f (Finite v1) (Finite (2 ^ (32 * i))) = Finite v2"
      "0 \<le> v2" "v2 \<le> 2 ^ (32 * (i + 1))"
    using fl_between [OF v, of "v1 * 2 ^ (32 * i)" "32 * (i + 1)"] by auto
  have "(2 :: rat) ^ (32 * i + 1) \<le> 2 ^ (32 * (i + 1))"
    by (intro power_increasing) simp_all
  with Suc.prems(2) v2(3) have "s + v2 \<le> 2 ^ (32 * (i + 1)) + 2 ^ (32 * (i + 1))"
    by linarith
  also have "(2 :: rat) ^ (32 * (i + 1)) + 2 ^ (32 * (i + 1)) = 2 ^ (32 * (i + 1) + 1)"
    by (simp only: power_add power_one_right)
  finally have "s + v2 \<le> 2 ^ (32 * (i + 1) + 1)" .
  moreover have "0 \<le> s + v2" using Suc.prems(1) v2(2) by simp
  moreover have "32 * (i + 1) + 1 \<le> emax f" using Suc.prems(3) by simp
  ultimately obtain s1 where s1: "fp_add f (Finite s) (Finite v2) = Finite s1"
      "0 \<le> s1" "s1 \<le> 2 ^ (32 * (i + 1) + 1)"
    using fl_between [OF v, of "s + v2" "32 * (i + 1) + 1"] by auto
  have "(2 :: rat) ^ (32 * i) * 2 ^ 32 = 2 ^ (32 * (i + 1))"
    unfolding ex by (rule mult.commute)
  then have t1: "fp_mul f (Finite (2 ^ (32 * i))) (Finite (2 ^ 32)) = Finite (2 ^ (32 * (i + 1)))"
    using fl_pow2 [OF v \<open>32 * (i + 1) \<le> emax f\<close>] by simp
  have "32 * ((i + 1) + k) + 1 \<le> emax f" using Suc.prems(3) by simp
  from Suc.IH [OF s1(2) s1(3) this, of g1]
  obtain s' g' where
    "canonical_sum f k (Finite s1) (Finite (2 ^ (32 * (i + 1)))) g1 =
       (Finite s', Finite (2 ^ (32 * (i + 1 + k))), g')"
    "0 \<le> s'" "s' \<le> 2 ^ (32 * (i + 1 + k) + 1)"
    by blast
  then show ?case
    using nx v1(1) v2(1) s1(1) t1 by (simp add: add.commute add.left_commute)
qed

lemma generate_canonical_range:
  assumes v: "valid_format f"
  shows "\<exists>q g'. generate_canonical f g = (Finite q, g') \<and> 0 \<le> q \<and> q \<le> 1 - 1 / 2 ^ precision f"
proof -
  from v have p: "0 < precision f" and m: "32 * (0 + canon_m f) + 1 \<le> emax f"
    by (simp_all add: valid_format_def)
  have top: "(0 :: rat) \<le> 1 - 1 / 2 ^ precision f"
    by (simp add: field_simps)
  from canonical_sum_invariant [OF v, of 0 0 "canon_m f" g] m
  obtain s g' where
    cs: "canonical_sum f (canon_m f) (Finite 0) (Finite 1) g =
       (Finite s, Finite (2 ^ (32 * canon_m f)), g')" and s0: "0 \<le> s"
    by auto
  define x where "x = s / 2 ^ (32 * canon_m f)"
  have x0: "0 \<le> x" using s0 by (simp add: x_def)
  have ret: "fp_div f (Finite s) (Finite (2 ^ (32 * canon_m f))) = fl f x"
    by (simp add: x_def)
  show ?thesis
  proof (cases "fl f x")
    case (Finite t)
    have t0: "0 \<le> t"
      using fl_mono [OF x0 p] Finite by simp
    show ?thesis
    proof (cases "1 \<le> t")
      case True
      with cs ret Finite top show ?thesis
        by (simp add: generate_canonical_def)
    next
      case False
      then have "t < 1" by simp
      from fl_below_one [OF v fl_closed [OF Finite p] t0 this] cs ret Finite False t0
      show ?thesis
        by (simp add: generate_canonical_def)
    qed
  next
    case PInf
    with cs ret top show ?thesis
      by (simp add: generate_canonical_def)
  next
    case NInf
    with x0 show ?thesis
      by (simp add: fl_nonneg_cases split: if_splits)
  next
    case NaN
    with x0 show ?thesis
      by (simp add: fl_nonneg_cases split: if_splits)
  qed
qed

lemma uniform_real_distribution_of_range:
  assumes v: "valid_format f"
    and ra: "fl f a = Finite a" and rb: "fl f b = Finite b" and ab: "a \<le> b"
    and d: "fp_sub f (Finite b) (Finite a) \<noteq> PInf"
    and draw: "uniform_real_distribution_of f (Finite a) (Finite b) g = Some (w, g')"
  shows "\<exists>x. w = Finite x \<and> a \<le> x \<and> x \<le> b"
proof -
  from v have p: "0 < precision f" by (simp add: valid_format_def)
  obtain q g1 where gc: "generate_canonical f g = (Finite q, g1)"
    and q0: "0 \<le> q" and q1: "q \<le> 1 - 1 / 2 ^ precision f"
    using generate_canonical_range [OF v, of g] by blast
  have "0 \<le> b - a" using ab by simp
  with d obtain dd where dd: "fp_sub f (Finite b) (Finite a) = Finite dd"
    by (auto simp add: fp_sub_def fl_nonneg_cases split: if_splits)
  from uniform_real_range_core [OF p ra rb ab q0 q1 dd] draw gc show ?thesis
    by (auto simp add: uniform_real_distribution_of_def)
qed

section \<open>The run of the demonstration on \<open>float\<close>\<close>

text \<open>
  \<open>fillRnd(a, 1, 100)\<close> on \<open>std::array<float, 1>\<close>, with the default seed 1337: the
  first word of the generator is 1125387415, the canonical draw is \<open>8792089 / 2^25\<close> and
  the element written is \<open>14124551 / 2^19\<close>, which prints as 26.9404.
\<close>

lemma valid_format_binary32: "valid_format binary32"
  by (simp add: valid_format_def binary32_def canon_m_def)

lemma valid_format_binary64: "valid_format binary64"
  by (simp add: valid_format_def binary64_def canon_m_def)

lemma valid_format_x87_extended: "valid_format x87_extended"
  by (simp add: valid_format_def x87_extended_def canon_m_def)

lemma valid_format_format_of: "valid_format (format_of T)"
  by (simp add: format_of_def valid_format_binary32 valid_format_binary64 valid_format_x87_extended)

lemma seeded_1337:
  "map ((!) (mt_x (mt19937_seed 1337))) [0, 1, 397] = [1337, 861704318, 3635311722]"
  by code_simp

lemma canonical_1337:
  "fp_div binary32
     (fp_add binary32 (Finite 0) (fp_mul binary32 (fp_of_int binary32 1125387415) (Finite 1)))
     (fp_mul binary32 (Finite 1) (Finite (2 ^ 32))) = Finite (8792089 / 33554432)"
  by code_simp

lemma scaled_1337:
  "fp_add binary32
     (fp_mul binary32 (Finite (8792089 / 33554432)) (fp_sub binary32 (Finite 100) (Finite 1)))
     (Finite 1) = Finite (14124551 / 524288)"
  by code_simp

lemma overflow_1337:
  "fp_add binary32
     (fp_mul binary32 (Finite (8792089 / 33554432))
        (fp_sub binary32 (Finite (fmax binary32)) (Finite (- fmax binary32))))
     (Finite (- fmax binary32)) = PInf"
  by code_simp

lemma first_output_1337:
  "\<exists>g1. mt_next (mt19937_seed 1337) = (1125387415, g1)"
proof -
  from seeded_1337 have s:
    "mt_x (mt19937_seed 1337) ! 0 = 1337"
    "mt_x (mt19937_seed 1337) ! 1 = 861704318"
    "mt_x (mt19937_seed 1337) ! 397 = 3635311722"
    by simp_all
  have "mt_gen_rand (mt_x (mt19937_seed 1337)) ! 0 =
          mt_twist_value 1337 861704318 3635311722"
    using mt_gen_rand_nth_low
      [OF length_mt19937_seed [of 1337], where k = 0 and ?k1.0 = 1 and km = 397]
    unfolding s by simp
  then show ?thesis
    by (simp add: mt_next_seeded mt_next_in_block mt_twist_value_def mt_temper_def Let_def)
qed

lemma generate_canonical_binary32:
  assumes "mt_next g = (u, g1)"
  shows "generate_canonical binary32 g =
    (let ret = fp_div binary32
       (fp_add binary32 (Finite 0) (fp_mul binary32 (fp_of_int binary32 (uint u)) (Finite 1)))
       (fp_mul binary32 (Finite 1) (Finite (2 ^ 32)))
     in (if fp_le (Finite 1) ret then Finite (1 - 1 / 2 ^ 24) else ret, g1))"
proof -
  have m: "canon_m binary32 = Suc 0"
    by (simp add: canon_m_def binary32_def)
  have p: "precision binary32 = 24"
    by (simp add: binary32_def)
  show ?thesis
    unfolding generate_canonical_def m canonical_sum.simps assms p
    by (simp only: Let_def prod.case)
qed

lemma generate_canonical_1337:
  "\<exists>g1. generate_canonical binary32 (mt19937_seed 1337) = (Finite (8792089 / 33554432), g1)"
proof -
  from first_output_1337 obtain g1 where "mt_next (mt19937_seed 1337) = (1125387415, g1)" ..
  have u: "uint (1125387415 :: 32 word) = 1125387415" by simp
  have "generate_canonical binary32 (mt19937_seed 1337) = (Finite (8792089 / 33554432), g1)"
    using generate_canonical_binary32 [OF \<open>mt_next (mt19937_seed 1337) = (1125387415, g1)\<close>]
    unfolding u canonical_1337 Let_def by simp
  then show ?thesis ..
qed

lemma fillRnd_float_1337:
  "fillRnd (libstdcxx_real T_float) T_float [x] (Finite 1) (Finite 100) 1337 =
     Some [Finite (14124551 / 524288)]"
proof -
  from generate_canonical_1337 obtain g1
    where "generate_canonical binary32 (mt19937_seed 1337) = (Finite (8792089 / 33554432), g1)" ..
  then show ?thesis
    by (simp add: fillRnd_def disType_def libstdcxx_real_def format_of_def
        uniform_real_distribution_of_def scaled_1337)
qed

lemma fillRnd_float_overflow_1337:
  "fillRnd (libstdcxx_real T_float) T_float [x]
     (Finite (- fmax binary32)) (Finite (fmax binary32)) 1337 = Some [PInf]"
proof -
  from generate_canonical_1337 obtain g1
    where "generate_canonical binary32 (mt19937_seed 1337) = (Finite (8792089 / 33554432), g1)" ..
  then show ?thesis
    by (simp add: fillRnd_def disType_def libstdcxx_real_def format_of_def
        uniform_real_distribution_of_def overflow_1337)
qed

section \<open>Facts about \<open>fillRnd\<close>\<close>

lemma fillRnd_returns_iff:
  "(\<exists>out. fillRnd lib vt arr mn mx seed = Some out) \<longleftrightarrow>
   (\<forall>i<length arr. \<exists>g.
      after_draws i (disType lib vt mn mx) (mt19937_seed seed) = Some g \<and>
      disType lib vt mn mx g \<noteq> None)"
proof
  assume "\<exists>out. fillRnd lib vt arr mn mx seed = Some out"
  then obtain out g' where
    r: "generate arr (disType lib vt mn mx) (mt19937_seed seed) = Some (out, g')"
    by (auto simp: fillRnd_def)
  show "\<forall>i<length arr. \<exists>g.
      after_draws i (disType lib vt mn mx) (mt19937_seed seed) = Some g \<and>
      disType lib vt mn mx g \<noteq> None"
  proof (intro allI impI)
    fix i
    assume "i < length arr"
    from generate_nth [OF r this]
    show "\<exists>g. after_draws i (disType lib vt mn mx) (mt19937_seed seed) = Some g \<and>
      disType lib vt mn mx g \<noteq> None"
      by auto
  qed
next
  assume "\<forall>i<length arr. \<exists>g.
      after_draws i (disType lib vt mn mx) (mt19937_seed seed) = Some g \<and>
      disType lib vt mn mx g \<noteq> None"
  from generate_returns_along_run [OF this] obtain out g' where
    "generate arr (disType lib vt mn mx) (mt19937_seed seed) = Some (out, g')"
    by blast
  then show "\<exists>out. fillRnd lib vt arr mn mx seed = Some out"
    by (simp add: fillRnd_def)
qed

lemma fillRnd_positions:
  assumes "fillRnd lib vt arr mn mx seed = Some out"
  shows "length out = length arr \<and>
     (\<forall>i<length arr. \<exists>g g'.
        after_draws i (disType lib vt mn mx) (mt19937_seed seed) = Some g \<and>
        disType lib vt mn mx g = Some (out ! i, g'))"
proof -
  from assms obtain g' where
    r: "generate arr (disType lib vt mn mx) (mt19937_seed seed) = Some (out, g')"
    by (auto simp: fillRnd_def)
  from generate_length [OF r] generate_nth [OF r] show ?thesis by blast
qed

lemma disType_libstdcxx_integral:
  "disType (libstdcxx_integral T) T =
     (if is_integral T then uniform_int_distribution_of T else (\<lambda>a b g. None))"
  by (simp add: disType_def libstdcxx_integral_def)

lemma disType_libstdcxx_real:
  "is_floating_point T \<Longrightarrow>
     disType (libstdcxx_real T) T = uniform_real_distribution_of (format_of T)"
  by (cases T) (simp_all add: disType_def libstdcxx_real_def)

lemma fillRnd_real_returns:
  assumes "is_floating_point T"
  shows "\<exists>out. fillRnd (libstdcxx_real T) T arr mn mx seed = Some out"
proof -
  have "\<forall>g. uniform_real_distribution_of (format_of T) mn mx g \<noteq> None"
    by (simp add: uniform_real_distribution_of_def split: prod.splits)
  from generate_returns [OF this] obtain out g' where
    "generate arr (uniform_real_distribution_of (format_of T) mn mx) (mt19937_seed seed) =
       Some (out, g')"
    by blast
  then have "fillRnd (libstdcxx_real T) T arr mn mx seed = Some out"
    by (simp add: fillRnd_def disType_libstdcxx_real [OF assms])
  then show ?thesis ..
qed

lemma fillRnd_integral_range:
  assumes "fillRnd (libstdcxx_integral T) T arr mn mx seed = Some out" and "e \<in> set out"
  shows "mn \<le> e \<and> e \<le> mx"
proof -
  from assms(1) obtain g' where
    "generate arr (disType (libstdcxx_integral T) T mn mx) (mt19937_seed seed) = Some (out, g')"
    by (auto simp: fillRnd_def)
  from generate_drawn [OF this assms(2)] obtain h h' where
    "disType (libstdcxx_integral T) T mn mx h = Some (e, h')" by blast
  then have "uniform_int_distribution_of T mn mx h = Some (e, h')"
    by (simp add: disType_libstdcxx_integral split: if_splits)
  then show ?thesis by (rule uniform_int_distribution_of_range)
qed

lemma fillRnd_real_range:
  assumes T: "is_floating_point T"
    and a: "fl (format_of T) a = Finite a" and b: "fl (format_of T) b = Finite b"
    and ab: "a \<le> b"
    and fin: "fp_sub (format_of T) (Finite b) (Finite a) \<noteq> PInf"
  shows "\<exists>out. fillRnd (libstdcxx_real T) T arr (Finite a) (Finite b) seed = Some out \<and>
           length out = length arr \<and>
           (\<forall>e \<in> set out. \<exists>x. e = Finite x \<and> a \<le> x \<and> x \<le> b)"
proof -
  let ?d = "uniform_real_distribution_of (format_of T) (Finite a) (Finite b)"
  have "\<forall>g. ?d g \<noteq> None"
    by (simp add: uniform_real_distribution_of_def split: prod.splits)
  from generate_returns [OF this] obtain out g' where
    r: "generate arr ?d (mt19937_seed seed) = Some (out, g')" by blast
  have "fillRnd (libstdcxx_real T) T arr (Finite a) (Finite b) seed = Some out"
    using r by (simp add: fillRnd_def disType_libstdcxx_real [OF T])
  moreover have "length out = length arr"
    using r by (rule generate_length)
  moreover have "\<forall>e \<in> set out. \<exists>x. e = Finite x \<and> a \<le> x \<and> x \<le> b"
  proof
    fix e
    assume "e \<in> set out"
    from generate_drawn [OF r this] obtain h h' where "?d h = Some (e, h')" by blast
    from uniform_real_distribution_of_range [OF valid_format_format_of a b ab fin this]
    show "\<exists>x. e = Finite x \<and> a \<le> x \<and> x \<le> b" .
  qed
  ultimately show ?thesis by blast
qed

lemma binary32_1_100:
  "fl binary32 1 = Finite 1 \<and> fl binary32 100 = Finite 100 \<and>
   fp_sub binary32 (Finite 100) (Finite 1) = Finite 99"
  by code_simp

lemma binary32_fmax:
  "fmax binary32 = 340282346638528859811704183484516925440 \<and>
   fl binary32 (fmax binary32) = Finite (fmax binary32) \<and>
   fl binary32 (- fmax binary32) = Finite (- fmax binary32) \<and>
   fp_sub binary32 (Finite (fmax binary32)) (Finite (- fmax binary32)) = PInf"
  by code_simp

section \<open>Properties of \<open>fillRnd\<close>\<close>

text \<open>
  C1 (determinism).  For every element type, every pair of bounds and every seed, two calls
  of \<open>fillRnd\<close> on sequences of the same length give the same output, whatever the sequences
  held before the call.  The bounds need not be ordered for this: the output is a function
  of the element type, the bounds, the seed and the length alone.
\<close>

theorem fillRnd_deterministic:
  "length a = length b \<Longrightarrow> fillRnd lib vt a mn mx k = fillRnd lib vt b mn mx k"
  by (simp add: fillRnd_def generate_ignores_contents [of a b])

theorem fillRnd_deterministic_witness:
  "length [0, 0, 0, 0, 0, 0, 0, 0, 0, 0 :: int] = length [1, 2, 3, 4, 5, 6, 7, 8, 9, 10 :: int] \<and>
   fillRnd libstdcxx_int T_int [0, 0, 0, 0, 0, 0, 0, 0, 0, 0] 1 10 42 =
     fillRnd libstdcxx_int T_int [1, 2, 3, 4, 5, 6, 7, 8, 9, 10] 1 10 42 \<and>
   fillRnd libstdcxx_int T_int [1, 2, 3, 4, 5, 6, 7, 8, 9, 10] 1 10 42 =
     Some [4, 8, 10, 2, 8, 8, 6, 6, 2, 5]"
  using fillRnd_deterministic [of "[0, 0, 0, 0, 0, 0, 0, 0, 0, 0 :: int]"
      "[1, 2, 3, 4, 5, 6, 7, 8, 9, 10]" libstdcxx_int T_int 1 10 42]
    fillRnd_seed_42 [of "[1, 2, 3, 4, 5, 6, 7, 8, 9, 10]"]
  by simp

text \<open>
  C2 (range containment).  For an integral element type and \<open>min \<le> max\<close>, every element
  of the output lies between \<open>min\<close> and \<open>max\<close>.  For a floating-point element type the
  fill returns and every element of the output is a finite value between \<open>min\<close> and
  \<open>max\<close>, both ends included, when \<open>min\<close> and \<open>max\<close> are finite values of the type with
  \<open>min \<le> max\<close> and the difference \<open>max - min\<close>, as the type computes it, does not overflow
  to infinity.  The last condition cannot be dropped, as the counterexample below shows.
\<close>

theorem fillRnd_within_bounds:
  "(is_integral T \<and> mn \<le> mx \<and> fillRnd (libstdcxx_integral T) T arr mn mx seed = Some out \<longrightarrow>
      (\<forall>e \<in> set out. mn \<le> e \<and> e \<le> mx)) \<and>
   (is_floating_point F \<and> fl (format_of F) a = Finite a \<and> fl (format_of F) b = Finite b \<and>
    a \<le> b \<and> fp_sub (format_of F) (Finite b) (Finite a) \<noteq> PInf \<longrightarrow>
      (\<exists>fout. fillRnd (libstdcxx_real F) F farr (Finite a) (Finite b) fseed = Some fout \<and>
         length fout = length farr \<and>
         (\<forall>e \<in> set fout. \<exists>x. e = Finite x \<and> a \<le> x \<and> x \<le> b)))"
  using fillRnd_integral_range [of T arr mn mx seed out]
    fillRnd_real_range [of F a b farr fseed]
  by blast

theorem fillRnd_within_bounds_witness:
  "is_integral T_int \<and> (1 :: int) \<le> 10 \<and>
   fillRnd (libstdcxx_integral T_int) T_int [0, 0, 0, 0, 0, 0, 0, 0, 0, 0] 1 10 42 =
     Some [4, 8, 10, 2, 8, 8, 6, 6, 2, 5] \<and>
   list_all (\<lambda>e. 1 \<le> e \<and> e \<le> 10) [4, 8, 10, 2, 8, 8, 6, 6, 2, 5 :: int] \<and>
   is_floating_point T_float \<and>
   fl (format_of T_float) 1 = Finite 1 \<and> fl (format_of T_float) 100 = Finite 100 \<and>
   (1 :: rat) \<le> 100 \<and>
   fp_sub (format_of T_float) (Finite 100) (Finite 1) \<noteq> PInf \<and>
   fillRnd (libstdcxx_real T_float) T_float [Finite 0] (Finite 1) (Finite 100) 1337 =
     Some [Finite (14124551 / 524288)] \<and>
   length [Finite (14124551 / 524288)] = length [Finite 0] \<and>
   list_all (\<lambda>e. \<exists>x. e = Finite x \<and> 1 \<le> x \<and> x \<le> 100) [Finite (14124551 / 524288)]"
proof -
  have i: "is_integral T_int" "(1 :: int) \<le> 10" by simp_all
  have f42: "fillRnd (libstdcxx_integral T_int) T_int [0, 0, 0, 0, 0, 0, 0, 0, 0, 0] 1 10 42 =
      Some [4, 8, 10, 2, 8, 8, 6, 6, 2, 5]"
    unfolding libstdcxx_integral_T_int by (rule fillRnd_seed_42) simp
  have fmt: "format_of T_float = binary32" by (simp add: format_of_def)
  have f: "is_floating_point T_float" "fl (format_of T_float) 1 = Finite 1"
    "fl (format_of T_float) 100 = Finite 100" "(1 :: rat) \<le> 100"
    "fp_sub (format_of T_float) (Finite 100) (Finite 1) \<noteq> PInf"
    using binary32_1_100 by (simp_all add: fmt)
  note ff = fillRnd_float_1337 [of "Finite 0"]
  from fillRnd_within_bounds [of T_int 1 10 "[0, 0, 0, 0, 0, 0, 0, 0, 0, 0]" 42
      "[4, 8, 10, 2, 8, 8, 6, 6, 2, 5]" T_float 1 100 "[Finite 0]" 1337] i f42 f ff
  have "(\<forall>e \<in> set [4, 8, 10, 2, 8, 8, 6, 6, 2, 5 :: int]. 1 \<le> e \<and> e \<le> 10) \<and>
    (\<forall>e \<in> set [Finite (14124551 / 524288)]. \<exists>x. e = Finite x \<and> 1 \<le> x \<and> x \<le> 100)"
    by (simp only: option.inject) blast
  then have "list_all (\<lambda>e. 1 \<le> e \<and> e \<le> 10) [4, 8, 10, 2, 8, 8, 6, 6, 2, 5 :: int]"
    and "list_all (\<lambda>e. \<exists>x. e = Finite x \<and> 1 \<le> x \<and> x \<le> 100) [Finite (14124551 / 524288)]"
    unfolding list_all_iff by blast+
  moreover have "length [Finite (14124551 / 524288)] = length [Finite 0]" by simp
  ultimately show ?thesis using i f42 f ff by blast
qed

text \<open>
  C2 as stated, for every floating-point call with \<open>min \<le> max\<close>, fails for
  \<open>std::array<float, 1> a; fillRnd(a, -FLT_MAX, FLT_MAX)\<close>: the difference
  \<open>FLT_MAX - (-FLT_MAX)\<close> overflows to infinity, and so do the product with the canonical
  draw and the sum with \<open>-FLT_MAX\<close>; the element written is \<open>+inf\<close>, which is not at most
  \<open>max\<close>.
\<close>

theorem fillRnd_float_range_overflow_counterexample:
  "fp_le (Finite (- fmax binary32)) (Finite (fmax binary32)) \<and>
   fillRnd (libstdcxx_real T_float) T_float [Finite 0]
     (Finite (- fmax binary32)) (Finite (fmax binary32)) 1337 = Some [PInf] \<and>
   \<not> fp_le PInf (Finite (fmax binary32))"
proof -
  have "fp_le (Finite (- fmax binary32)) (Finite (fmax binary32))"
    by (simp add: conjunct1 [OF binary32_fmax])
  moreover note fillRnd_float_overflow_1337 [of "Finite 0"]
  moreover have "\<not> fp_le PInf (Finite (fmax binary32))"
    by simp
  ultimately show ?thesis by blast
qed


text \<open>
  C4 (choice of the distribution).  For an integral element type, \<open>fillRnd\<close> assigns the
  draws of the integer distribution constructed with \<open>(min, max)\<close>, made one after the other
  from the generator seeded with \<open>seed\<close>; for a floating-point element type, the draws of
  the real distribution.  Which of the two it is depends on the element type alone, not on
  the container, the bounds or the seed.  The integer distribution of libstdc++ includes
  both of its bounds: for every integral type but \<open>bool\<close> and bounds \<open>a \<le> b\<close> of that
  type, there is a state of the generator in which the draw is \<open>a\<close> and one in which it is
  \<open>b\<close>, and no draw is outside of \<open>a\<close> to \<open>b\<close>.
\<close>

theorem fillRnd_selects_distribution:
  "(is_integral vt \<longrightarrow>
      fillRnd lib vt arr mn mx seed =
        map_option fst (generate arr (uniform_int_distribution lib mn mx) (mt19937_seed seed))) \<and>
   (is_floating_point vt \<longrightarrow>
      fillRnd lib vt arr mn mx seed =
        map_option fst (generate arr (uniform_real_distribution lib mn mx) (mt19937_seed seed))) \<and>
   (is_integral T \<and> T \<noteq> T_bool \<and> int_min T \<le> a \<and> a \<le> b \<and> b \<le> int_max T \<longrightarrow>
      (\<exists>g g'. uniform_int_distribution (libstdcxx_integral T) a b g = Some (a, g')) \<and>
      (\<exists>g g'. uniform_int_distribution (libstdcxx_integral T) a b g = Some (b, g')) \<and>
      (\<forall>g v g'. uniform_int_distribution (libstdcxx_integral T) a b g = Some (v, g') \<longrightarrow>
         a \<le> v \<and> v \<le> b))"
proof (intro conjI impI)
  assume "is_integral vt"
  then show "fillRnd lib vt arr mn mx seed =
      map_option fst (generate arr (uniform_int_distribution lib mn mx) (mt19937_seed seed))"
    by (simp add: fillRnd_def disType_def)
next
  assume "is_floating_point vt"
  then have "\<not> is_integral vt" by (cases vt) simp_all
  then show "fillRnd lib vt arr mn mx seed =
      map_option fst (generate arr (uniform_real_distribution lib mn mx) (mt19937_seed seed))"
    by (simp add: fillRnd_def disType_def)
next
  assume h: "is_integral T \<and> T \<noteq> T_bool \<and> int_min T \<le> a \<and> a \<le> b \<and> b \<le> int_max T"
  then show "\<exists>g g'. uniform_int_distribution (libstdcxx_integral T) a b g = Some (a, g')"
    using uniform_int_distribution_of_attains(1) [of T a b]
    by (simp add: libstdcxx_integral_def)
next
  assume h: "is_integral T \<and> T \<noteq> T_bool \<and> int_min T \<le> a \<and> a \<le> b \<and> b \<le> int_max T"
  then show "\<exists>g g'. uniform_int_distribution (libstdcxx_integral T) a b g = Some (b, g')"
    using uniform_int_distribution_of_attains(2) [of T a b]
    by (simp add: libstdcxx_integral_def)
next
  show "\<forall>g v g'. uniform_int_distribution (libstdcxx_integral T) a b g = Some (v, g') \<longrightarrow>
         a \<le> v \<and> v \<le> b"
    using uniform_int_distribution_of_range [of T a b]
    by (simp add: libstdcxx_integral_def)
qed

theorem fillRnd_selects_distribution_witness:
  "is_integral T_int \<and>
   fillRnd (libstdcxx_integral T_int) T_int [0, 0, 0, 0, 0, 0, 0, 0, 0, 0] 1 10 1 =
     map_option fst (generate [0, 0, 0, 0, 0, 0, 0, 0, 0, 0]
       (uniform_int_distribution (libstdcxx_integral T_int) 1 10) (mt19937_seed 1)) \<and>
   fillRnd (libstdcxx_integral T_int) T_int [0, 0, 0, 0, 0, 0, 0, 0, 0, 0] 1 10 1 =
     Some [5, 10, 8, 10, 1, 2, 4, 10, 2, 3] \<and>
   is_floating_point T_float \<and>
   fillRnd (libstdcxx_real T_float) T_float [Finite 0] (Finite 1) (Finite 100) 1337 =
     map_option fst (generate [Finite 0]
       (uniform_real_distribution (libstdcxx_real T_float) (Finite 1) (Finite 100))
       (mt19937_seed 1337)) \<and>
   fillRnd (libstdcxx_real T_float) T_float [Finite 0] (Finite 1) (Finite 100) 1337 =
     Some [Finite (14124551 / 524288)] \<and>
   (is_integral T_int \<and> T_int \<noteq> T_bool \<and> int_min T_int \<le> 1 \<and> (1 :: int) \<le> 10 \<and>
    10 \<le> int_max T_int) \<and>
   (\<exists>g g'. uniform_int_distribution (libstdcxx_integral T_int) 1 10 g = Some (1, g')) \<and>
   (\<exists>g g'. uniform_int_distribution (libstdcxx_integral T_int) 1 10 g = Some (10, g')) \<and>
   \<not> (\<exists>g v g'. uniform_int_distribution (libstdcxx_integral T_int) 1 10 g = Some (v, g') \<and>
      \<not> (1 \<le> v \<and> v \<le> 10))"
proof -
  have i: "is_integral T_int" by simp
  have fl: "is_floating_point T_float" by simp
  have r: "is_integral T_int \<and> T_int \<noteq> T_bool \<and> int_min T_int \<le> 1 \<and> (1 :: int) \<le> 10 \<and>
      10 \<le> int_max T_int"
    by (simp add: int_min_def int_max_def)
  have f1: "fillRnd (libstdcxx_integral T_int) T_int [0, 0, 0, 0, 0, 0, 0, 0, 0, 0] 1 10 1 =
      Some [5, 10, 8, 10, 1, 2, 4, 10, 2, 3]"
    unfolding libstdcxx_integral_T_int by (rule fillRnd_seed_1) simp
  note ff = fillRnd_float_1337 [of "Finite 0"]
  from fillRnd_selects_distribution
      [of T_int "libstdcxx_integral T_int" "[0, 0, 0, 0, 0, 0, 0, 0, 0, 0]" 1 10 1 T_int 1 10] i r
  have a: "fillRnd (libstdcxx_integral T_int) T_int [0, 0, 0, 0, 0, 0, 0, 0, 0, 0] 1 10 1 =
     map_option fst (generate [0, 0, 0, 0, 0, 0, 0, 0, 0, 0]
       (uniform_int_distribution (libstdcxx_integral T_int) 1 10) (mt19937_seed 1))"
    and b: "\<exists>g g'. uniform_int_distribution (libstdcxx_integral T_int) 1 10 g = Some (1, g')"
    and c: "\<exists>g g'. uniform_int_distribution (libstdcxx_integral T_int) 1 10 g = Some (10, g')"
    and d: "\<not> (\<exists>g v g'. uniform_int_distribution (libstdcxx_integral T_int) 1 10 g = Some (v, g') \<and>
      \<not> (1 \<le> v \<and> v \<le> 10))"
    by blast+
  from fillRnd_selects_distribution
      [of T_float "libstdcxx_real T_float" "[Finite 0]" "Finite 1" "Finite 100" 1337 T_int 1 10] fl
  have e: "fillRnd (libstdcxx_real T_float) T_float [Finite 0] (Finite 1) (Finite 100) 1337 =
     map_option fst (generate [Finite 0]
       (uniform_real_distribution (libstdcxx_real T_float) (Finite 1) (Finite 100))
       (mt19937_seed 1337))"
    by blast
  from i fl r f1 ff a b c d e show ?thesis by blast
qed

text \<open>
  C5 (in-place fill).  \<open>fillRnd\<close> returns exactly when each of the draws it makes, one per
  position and one after the other from the call's own freshly seeded generator, returns.
  When it returns, the sequence after the call has the length it had before, and position
  \<open>i\<close> holds the value of draw number \<open>i\<close> (the draw made after \<open>i\<close> earlier draws).  The
  result is the only thing the call produces: the generator is local to it.  For a
  floating-point element type every draw returns, and so does every call.  For an integral
  element type a draw is a rejection loop without a bound, so the statement is about the draws
  of the run; the three calls of \<open>main\<close> return, with the values shown.
\<close>

theorem fillRnd_overwrites_every_position:
  "((\<exists>out. fillRnd lib vt arr mn mx seed = Some out) \<longleftrightarrow>
      (\<forall>i<length arr. \<exists>g.
         after_draws i (disType lib vt mn mx) (mt19937_seed seed) = Some g \<and>
         disType lib vt mn mx g \<noteq> None)) \<and>
   (\<forall>out. fillRnd lib vt arr mn mx seed = Some out \<longrightarrow>
      length out = length arr \<and>
      (\<forall>i<length arr. \<exists>g g'.
         after_draws i (disType lib vt mn mx) (mt19937_seed seed) = Some g \<and>
         disType lib vt mn mx g = Some (out ! i, g'))) \<and>
   (is_floating_point F \<longrightarrow>
      (\<exists>fout. fillRnd (libstdcxx_real F) F farr fmn fmx fseed = Some fout))"
  using fillRnd_returns_iff [of lib vt arr mn mx seed] fillRnd_positions [of lib vt arr mn mx seed]
    fillRnd_real_returns [of F farr fmn fmx fseed]
  by blast

theorem fillRnd_overwrites_every_position_witness:
  "(\<exists>out. fillRnd libstdcxx_int T_int [0, 0, 0, 0, 0, 0, 0, 0, 0, 0] 1 10 42 = Some out \<and>
      out = [4, 8, 10, 2, 8, 8, 6, 6, 2, 5] \<and>
      length out = length ([0, 0, 0, 0, 0, 0, 0, 0, 0, 0] :: int list) \<and>
      (\<forall>i<length ([0, 0, 0, 0, 0, 0, 0, 0, 0, 0] :: int list). \<exists>g.
         after_draws i (disType libstdcxx_int T_int 1 10) (mt19937_seed 42) = Some g \<and>
         disType libstdcxx_int T_int 1 10 g \<noteq> None) \<and>
      (\<forall>i<length ([0, 0, 0, 0, 0, 0, 0, 0, 0, 0] :: int list). \<exists>g g'.
         after_draws i (disType libstdcxx_int T_int 1 10) (mt19937_seed 42) = Some g \<and>
         disType libstdcxx_int T_int 1 10 g = Some (out ! i, g'))) \<and>
   (\<exists>out. fillRnd libstdcxx_int T_int [0, 0, 0, 0, 0, 0, 0, 0, 0, 0] 1 10 43 = Some out \<and>
      out = [2, 5, 7, 2, 2, 2, 3, 2, 4, 9] \<and>
      length out = length ([0, 0, 0, 0, 0, 0, 0, 0, 0, 0] :: int list) \<and>
      (\<forall>i<length ([0, 0, 0, 0, 0, 0, 0, 0, 0, 0] :: int list). \<exists>g.
         after_draws i (disType libstdcxx_int T_int 1 10) (mt19937_seed 43) = Some g \<and>
         disType libstdcxx_int T_int 1 10 g \<noteq> None) \<and>
      (\<forall>i<length ([0, 0, 0, 0, 0, 0, 0, 0, 0, 0] :: int list). \<exists>g g'.
         after_draws i (disType libstdcxx_int T_int 1 10) (mt19937_seed 43) = Some g \<and>
         disType libstdcxx_int T_int 1 10 g = Some (out ! i, g'))) \<and>
   (\<exists>out. fillRnd (libstdcxx_real T_float) T_float [Finite 0] (Finite 1) (Finite 100) 1337 = Some out \<and>
      out = [Finite (14124551 / 524288)] \<and>
      length out = length ([Finite 0]) \<and>
      (\<forall>i<length ([Finite 0]). \<exists>g.
         after_draws i (disType (libstdcxx_real T_float) T_float (Finite 1) (Finite 100)) (mt19937_seed 1337) = Some g \<and>
         disType (libstdcxx_real T_float) T_float (Finite 1) (Finite 100) g \<noteq> None) \<and>
      (\<forall>i<length ([Finite 0]). \<exists>g g'.
         after_draws i (disType (libstdcxx_real T_float) T_float (Finite 1) (Finite 100)) (mt19937_seed 1337) = Some g \<and>
         disType (libstdcxx_real T_float) T_float (Finite 1) (Finite 100) g = Some (out ! i, g'))) \<and>
   is_floating_point T_float \<and>
   (\<exists>fout. fillRnd (libstdcxx_real T_float) T_float [Finite 0] (Finite 1) (Finite 100) 1337 =
      Some fout)"
proof -
  have f42: "fillRnd libstdcxx_int T_int [0, 0, 0, 0, 0, 0, 0, 0, 0, 0] 1 10 42 =
      Some [4, 8, 10, 2, 8, 8, 6, 6, 2, 5]"
    by (rule fillRnd_seed_42) simp
  have f43: "fillRnd libstdcxx_int T_int [0, 0, 0, 0, 0, 0, 0, 0, 0, 0] 1 10 43 =
      Some [2, 5, 7, 2, 2, 2, 3, 2, 4, 9]"
    by (rule fillRnd_seed_43) simp
  note ff = fillRnd_float_1337 [of "Finite 0"]
  have fp: "is_floating_point T_float" by simp
  have a: "(\<exists>out. fillRnd libstdcxx_int T_int [0, 0, 0, 0, 0, 0, 0, 0, 0, 0] 1 10 42 = Some out \<and>
      out = [4, 8, 10, 2, 8, 8, 6, 6, 2, 5] \<and>
      length out = length ([0, 0, 0, 0, 0, 0, 0, 0, 0, 0] :: int list) \<and>
      (\<forall>i<length ([0, 0, 0, 0, 0, 0, 0, 0, 0, 0] :: int list). \<exists>g.
         after_draws i (disType libstdcxx_int T_int 1 10) (mt19937_seed 42) = Some g \<and>
         disType libstdcxx_int T_int 1 10 g \<noteq> None) \<and>
      (\<forall>i<length ([0, 0, 0, 0, 0, 0, 0, 0, 0, 0] :: int list). \<exists>g g'.
         after_draws i (disType libstdcxx_int T_int 1 10) (mt19937_seed 42) = Some g \<and>
         disType libstdcxx_int T_int 1 10 g = Some (out ! i, g')))"
    using fillRnd_overwrites_every_position
      [of libstdcxx_int T_int "[0, 0, 0, 0, 0, 0, 0, 0, 0, 0]" 1 10 42] f42
    by (intro exI [of _ "[4, 8, 10, 2, 8, 8, 6, 6, 2, 5]"]) blast
  have b: "(\<exists>out. fillRnd libstdcxx_int T_int [0, 0, 0, 0, 0, 0, 0, 0, 0, 0] 1 10 43 = Some out \<and>
      out = [2, 5, 7, 2, 2, 2, 3, 2, 4, 9] \<and>
      length out = length ([0, 0, 0, 0, 0, 0, 0, 0, 0, 0] :: int list) \<and>
      (\<forall>i<length ([0, 0, 0, 0, 0, 0, 0, 0, 0, 0] :: int list). \<exists>g.
         after_draws i (disType libstdcxx_int T_int 1 10) (mt19937_seed 43) = Some g \<and>
         disType libstdcxx_int T_int 1 10 g \<noteq> None) \<and>
      (\<forall>i<length ([0, 0, 0, 0, 0, 0, 0, 0, 0, 0] :: int list). \<exists>g g'.
         after_draws i (disType libstdcxx_int T_int 1 10) (mt19937_seed 43) = Some g \<and>
         disType libstdcxx_int T_int 1 10 g = Some (out ! i, g')))"
    using fillRnd_overwrites_every_position
      [of libstdcxx_int T_int "[0, 0, 0, 0, 0, 0, 0, 0, 0, 0]" 1 10 43] f43
    by (intro exI [of _ "[2, 5, 7, 2, 2, 2, 3, 2, 4, 9]"]) blast
  have c: "(\<exists>out. fillRnd (libstdcxx_real T_float) T_float [Finite 0] (Finite 1) (Finite 100) 1337 = Some out \<and>
      out = [Finite (14124551 / 524288)] \<and>
      length out = length ([Finite 0]) \<and>
      (\<forall>i<length ([Finite 0]). \<exists>g.
         after_draws i (disType (libstdcxx_real T_float) T_float (Finite 1) (Finite 100)) (mt19937_seed 1337) = Some g \<and>
         disType (libstdcxx_real T_float) T_float (Finite 1) (Finite 100) g \<noteq> None) \<and>
      (\<forall>i<length ([Finite 0]). \<exists>g g'.
         after_draws i (disType (libstdcxx_real T_float) T_float (Finite 1) (Finite 100)) (mt19937_seed 1337) = Some g \<and>
         disType (libstdcxx_real T_float) T_float (Finite 1) (Finite 100) g = Some (out ! i, g')))"
    using fillRnd_overwrites_every_position
      [of "libstdcxx_real T_float" T_float "[Finite 0]" "Finite 1" "Finite 100" 1337] ff
    by (intro exI [of _ "[Finite (14124551 / 524288)]"]) blast
  have d: "\<exists>fout. fillRnd (libstdcxx_real T_float) T_float [Finite 0] (Finite 1) (Finite 100) 1337 =
      Some fout"
    using fillRnd_overwrites_every_position
      [of "libstdcxx_real T_float" T_float "[Finite 0]" "Finite 1" "Finite 100" 1337
        T_float "[Finite 0]" "Finite 1" "Finite 100" 1337] fp
    by blast
  from a b c fp d show ?thesis by blast
qed

text \<open>
  C6 (default seed).  A call without the seed argument is the call with seed 1337.
\<close>

theorem fillRnd_default_seed_is_1337:
  "fillRnd_default_seed lib vt arr mn mx = fillRnd lib vt arr mn mx 1337"
  by (simp add: fillRnd_default_seed_def)

text \<open>
  C7 (empty sequence).  On a sequence of length zero \<open>fillRnd\<close> returns, and the sequence
  is still empty; no draw is made.
\<close>

theorem fillRnd_empty:
  "fillRnd lib vt [] mn mx seed = Some []"
  by (simp add: fillRnd_def)

text \<open>
  C8 (seed 43 against seed 42).  With the integer distribution of libstdc++, filling ten
  \<open>int\<close>s with bounds 1 and 10 returns for seed 42 and for seed 43, and the two outputs
  differ in at least one position.
\<close>

theorem fillRnd_seed_43_differs_from_seed_42:
  assumes "length a = 10" and "length b = 10"
  shows "\<exists>out42 out43.
           fillRnd libstdcxx_int T_int a 1 10 42 = Some out42 \<and>
           fillRnd libstdcxx_int T_int b 1 10 43 = Some out43 \<and>
           (\<exists>i<10. out42 ! i \<noteq> out43 ! i)"
proof -
  have "[4, 8, 10, 2, 8, 8, 6, 6, 2, 5] ! 0 \<noteq> [2, 5, 7, 2, 2, 2, 3, 2, 4, 9 :: int] ! 0"
    by simp
  then have "\<exists>i<10. [4, 8, 10, 2, 8, 8, 6, 6, 2, 5] ! i \<noteq> [2, 5, 7, 2, 2, 2, 3, 2, 4, 9 :: int] ! i"
    by (intro exI [of _ 0]) simp
  with fillRnd_seed_42 [OF assms(1)] fillRnd_seed_43 [OF assms(2)] show ?thesis
    by blast
qed

theorem fillRnd_seed_43_differs_from_seed_42_witness:
  "length [0, 0, 0, 0, 0, 0, 0, 0, 0, 0 :: int] = 10 \<and>
   (\<exists>out42 out43.
      fillRnd libstdcxx_int T_int [0, 0, 0, 0, 0, 0, 0, 0, 0, 0] 1 10 42 = Some out42 \<and>
      fillRnd libstdcxx_int T_int [0, 0, 0, 0, 0, 0, 0, 0, 0, 0] 1 10 43 = Some out43 \<and>
      (\<exists>i<10. out42 ! i \<noteq> out43 ! i))"
proof -
  have len: "length [0, 0, 0, 0, 0, 0, 0, 0, 0, 0 :: int] = 10" by simp
  from fillRnd_seed_43_differs_from_seed_42 [OF len len] len show ?thesis by blast
qed

text \<open>
  C9 (display helpers), as the code has it.  For a non-empty sequence both helpers append to
  the stream the bracketed, comma-separated list of the elements, in order; for an empty
  sequence they write nothing.  They take the sequence by reference to \<open>const\<close> and give
  back the stream only.
\<close>

theorem display_helpers_render:
  "(v \<noteq> [] \<longrightarrow>
      shift_out_vector put out v = out @ spec_bracketed_list put v \<and>
      shift_out_array put out v = out @ spec_bracketed_list put v) \<and>
   (v = [] \<longrightarrow> shift_out_vector put out v = out \<and> shift_out_array put out v = out)"
  by (simp add: shift_out_array_eq shift_out_vector_nonempty) (simp add: shift_out_vector_def)

theorem display_helpers_render_witness:
  "[True, False, True] \<noteq> [] \<and>
   shift_out_vector put_bool ''v = '' [True, False, True] = ''v = [1, 0, 1]'' \<and>
   shift_out_array put_bool ''v = '' [True, False, True] = ''v = [1, 0, 1]'' \<and>
   shift_out_vector put_bool ''v = '' [] = ''v = '' \<and>
   shift_out_array put_bool ''v = '' [] = ''v = ''"
  using display_helpers_render [of "[True, False, True]" put_bool "''v = ''"]
    display_helpers_render [of "[]" put_bool "''v = ''"]
  by (simp add: spec_bracketed_list_def put_bool_def)

text \<open>
  C9 as the specification states it includes the empty sequence; there the bracketed list is
  \<open>[]\<close>, and the helpers write nothing.
\<close>

theorem display_helpers_empty_counterexample:
  "shift_out_vector put_bool '''' [] \<noteq> '''' @ spec_bracketed_list put_bool [] \<and>
   shift_out_array put_bool '''' [] \<noteq> '''' @ spec_bracketed_list put_bool []"
  by (simp add: shift_out_vector_def shift_out_array_def spec_bracketed_list_def)

text \<open>
  C10 (prefix).  For the same element type, bounds and seed, the fill of a shorter sequence
  is the prefix of the fill of a longer one: when the longer fill returns, so does the
  shorter, with the first elements of the longer output.
\<close>

theorem fillRnd_prefix:
  assumes "length a \<le> length b" and "fillRnd lib vt b mn mx k = Some ys"
  shows "fillRnd lib vt a mn mx k = Some (take (length a) ys)"
proof -
  from assms(2) obtain g' where
    "generate b (disType lib vt mn mx) (mt19937_seed k) = Some (ys, g')"
    by (auto simp: fillRnd_def)
  from generate_prefix [OF assms(1) this] show ?thesis
    by (auto simp: fillRnd_def)
qed

theorem fillRnd_prefix_witness:
  "length [0, 0, 0 :: int] \<le> length [0, 0, 0, 0, 0, 0, 0, 0, 0, 0 :: int] \<and>
   fillRnd libstdcxx_int T_int [0, 0, 0, 0, 0, 0, 0, 0, 0, 0] 1 10 43 =
     Some [2, 5, 7, 2, 2, 2, 3, 2, 4, 9] \<and>
   fillRnd libstdcxx_int T_int [0, 0, 0] 1 10 43 = Some [2, 5, 7]"
proof -
  have le: "length [0, 0, 0 :: int] \<le> length [0, 0, 0, 0, 0, 0, 0, 0, 0, 0 :: int]" by simp
  have fill: "fillRnd libstdcxx_int T_int [0, 0, 0, 0, 0, 0, 0, 0, 0, 0] 1 10 43 =
      Some [2, 5, 7, 2, 2, 2, 3, 2, 4, 9]"
    by (rule fillRnd_seed_43) simp
  from fillRnd_prefix [OF le fill] le fill show ?thesis by simp
qed

end
